theory Spec2Isabelle
  imports Main "HOL-Library.Word" "HOL-Library.Signed_Division"
begin

section \<open>Memory, local variables and faults\<close>

text \<open>
  The routines of \<^verbatim>\<open>trans.c\<close> share the prototype
  \<^verbatim>\<open>void f(int M, int N, int A[N][M], int B[M][N])\<close>.
  A matrix is an array of rows; an element is a 32-bit C \<^verbatim>\<open>int\<close>, a word that is only copied and compared.
  The dimensions and the loop counters are C \<^verbatim>\<open>int\<close>s, modelled as
  \<^typ>\<open>int\<close>. An access whose index is not inside the declared array is undefined
  behaviour in C; the model stops the run there as a fault, so a theorem that a call
  returns says that every access of the call was inside. A counter of a tuned routine
  goes up to a dimension plus seven, which a C \<^verbatim>\<open>int\<close> holds for every dimension
  that is a multiple of eight; the counters of \<^verbatim>\<open>trans\<close> and \<^verbatim>\<open>is_transpose\<close>
  stop at the dimensions.
\<close>

type_synonym word32 = "32 word"
type_synonym matrix = "word32 list list"

datatype arr = ArrA | ArrB

datatype var = Tmp | C0 | C1 | C2 | C3 | C4 | C5 | C6 | C7

text \<open>
  Every executed memory statement is logged: \<open>Load x a r c\<close> is \<^verbatim>\<open>x = a[r][c]\<close>,
  \<open>Store a r c x\<close> is \<^verbatim>\<open>a[r][c] = x\<close>, and \<open>Peek a r c\<close> is a read of
  \<^verbatim>\<open>a[r][c]\<close> inside an expression.
\<close>

datatype event = Load var arr int int | Store arr int int var | Peek arr int int

datatype fault = ReadOutside arr int int | WriteOutside arr int int | Indeterminate var

record state =
  memA :: matrix
  memB :: matrix
  vars :: "var \<rightharpoonup> word32"
  trace :: "event list"

datatype 'a result = Fault fault state | Ok 'a state

text \<open>\<^verbatim>\<open>int A[N][M]\<close> has \<open>N\<close> rows of \<open>M\<close> columns, \<^verbatim>\<open>int B[M][N]\<close> has \<open>M\<close> rows of \<open>N\<close>.\<close>

definition rows_of :: "int \<Rightarrow> int \<Rightarrow> arr \<Rightarrow> int" where
  "rows_of M N a = (case a of ArrA \<Rightarrow> N | ArrB \<Rightarrow> M)"

definition cols_of :: "int \<Rightarrow> int \<Rightarrow> arr \<Rightarrow> int" where
  "cols_of M N a = (case a of ArrA \<Rightarrow> M | ArrB \<Rightarrow> N)"

definition inside :: "int \<Rightarrow> int \<Rightarrow> arr \<Rightarrow> int \<Rightarrow> int \<Rightarrow> bool" where
  "inside M N a r c \<longleftrightarrow> 0 \<le> r \<and> r < rows_of M N a \<and> 0 \<le> c \<and> c < cols_of M N a"

definition mem :: "state \<Rightarrow> arr \<Rightarrow> matrix" where
  "mem s a = (case a of ArrA \<Rightarrow> memA s | ArrB \<Rightarrow> memB s)"

definition put :: "arr \<Rightarrow> matrix \<Rightarrow> state \<Rightarrow> state" where
  "put a m s = (case a of ArrA \<Rightarrow> s\<lparr>memA := m\<rparr> | ArrB \<Rightarrow> s\<lparr>memB := m\<rparr>)"

definition cell :: "matrix \<Rightarrow> int \<Rightarrow> int \<Rightarrow> word32" where
  "cell m r c = m ! nat r ! nat c"

definition upd :: "matrix \<Rightarrow> int \<Rightarrow> int \<Rightarrow> word32 \<Rightarrow> matrix" where
  "upd m r c v = m[nat r := (m ! nat r)[nat c := v]]"

text \<open>\<^verbatim>\<open>x = a[r][c];\<close>\<close>

definition load :: "int \<Rightarrow> int \<Rightarrow> var \<Rightarrow> arr \<Rightarrow> int \<Rightarrow> int \<Rightarrow> state \<Rightarrow> unit result" where
  "load M N x a r c s =
     (if inside M N a r c
      then Ok () (s\<lparr>vars := (vars s)(x \<mapsto> cell (mem s a) r c),
                     trace := trace s @ [Load x a r c]\<rparr>)
      else Fault (ReadOutside a r c) s)"

text \<open>\<^verbatim>\<open>a[r][c] = x;\<close> A local that was never assigned has no value to store.\<close>

definition store :: "int \<Rightarrow> int \<Rightarrow> arr \<Rightarrow> int \<Rightarrow> int \<Rightarrow> var \<Rightarrow> state \<Rightarrow> unit result" where
  "store M N a r c x s =
     (case vars s x of
        None \<Rightarrow> Fault (Indeterminate x) s
      | Some v \<Rightarrow>
          if inside M N a r c
          then Ok () ((put a (upd (mem s a) r c v) s)\<lparr>trace := trace s @ [Store a r c x]\<rparr>)
          else Fault (WriteOutside a r c) s)"

text \<open>A sequence of statements; it stops at the first fault.\<close>

fun block :: "(state \<Rightarrow> unit result) list \<Rightarrow> state \<Rightarrow> unit result" where
  "block [] s = Ok () s"
| "block (c # cs) s = (case c s of Fault f t \<Rightarrow> Fault f t | Ok _ t \<Rightarrow> block cs t)"

text \<open>The locals of a routine are indeterminate when it is entered.\<close>

definition enter :: "state \<Rightarrow> state" where
  "enter s = s\<lparr>vars := Map.empty\<rparr>"

section \<open>Loops\<close>

text \<open>\<^verbatim>\<open>for (k = lo; k < hi; k++) body\<close>\<close>

function for_up1 :: "int \<Rightarrow> int \<Rightarrow> (int \<Rightarrow> state \<Rightarrow> unit result) \<Rightarrow> state \<Rightarrow> unit result" where
  "for_up1 k hi body s =
     (if k < hi
      then (case body k s of Fault f t \<Rightarrow> Fault f t | Ok _ t \<Rightarrow> for_up1 (k + 1) hi body t)
      else Ok () s)"
  by pat_completeness auto
termination
  by (relation "measure (\<lambda>(k, hi, body, s). nat (hi - k))") auto

text \<open>\<^verbatim>\<open>for (j = lo; j < hi; j += 4) body\<close>\<close>

function for_up4 :: "int \<Rightarrow> int \<Rightarrow> (int \<Rightarrow> state \<Rightarrow> unit result) \<Rightarrow> state \<Rightarrow> unit result" where
  "for_up4 k hi body s =
     (if k < hi
      then (case body k s of Fault f t \<Rightarrow> Fault f t | Ok _ t \<Rightarrow> for_up4 (k + 4) hi body t)
      else Ok () s)"
  by pat_completeness auto
termination
  by (relation "measure (\<lambda>(k, hi, body, s). nat (hi - k))") auto

text \<open>\<^verbatim>\<open>for (i = lo; i < hi; i += 8) body\<close>\<close>

function for_up8 :: "int \<Rightarrow> int \<Rightarrow> (int \<Rightarrow> state \<Rightarrow> unit result) \<Rightarrow> state \<Rightarrow> unit result" where
  "for_up8 k hi body s =
     (if k < hi
      then (case body k s of Fault f t \<Rightarrow> Fault f t | Ok _ t \<Rightarrow> for_up8 (k + 8) hi body t)
      else Ok () s)"
  by pat_completeness auto
termination
  by (relation "measure (\<lambda>(k, hi, body, s). nat (hi - k))") auto

text \<open>\<^verbatim>\<open>for (k = hi; k >= lo; k--) body\<close>\<close>

function for_down1 :: "int \<Rightarrow> int \<Rightarrow> (int \<Rightarrow> state \<Rightarrow> unit result) \<Rightarrow> state \<Rightarrow> unit result" where
  "for_down1 k lo body s =
     (if k \<ge> lo
      then (case body k s of Fault f t \<Rightarrow> Fault f t | Ok _ t \<Rightarrow> for_down1 (k - 1) lo body t)
      else Ok () s)"
  by pat_completeness auto
termination
  by (relation "measure (\<lambda>(k, lo, body, s). nat (k - lo + 1))") auto

section \<open>The transpose routines\<close>

text \<open>\<^verbatim>\<open>trans\<close>: the baseline row-wise scan.\<close>

definition trans_cell :: "int \<Rightarrow> int \<Rightarrow> int \<Rightarrow> int \<Rightarrow> state \<Rightarrow> unit result" where
  "trans_cell M N i j = block [load M N Tmp ArrA i j, store M N ArrB j i Tmp]"

definition trans :: "int \<Rightarrow> int \<Rightarrow> state \<Rightarrow> unit result" where
  "trans M N s = for_up1 0 N (\<lambda>i. for_up1 0 M (\<lambda>j. trans_cell M N i j)) (enter s)"

text \<open>\<^verbatim>\<open>transpose32x32\<close>: one row of an 8 by 8 block per iteration of \<open>k\<close>.\<close>

definition t32_row :: "int \<Rightarrow> int \<Rightarrow> int \<Rightarrow> int \<Rightarrow> state \<Rightarrow> unit result" where
  "t32_row M N j k = block
     [load M N C0 ArrA k j,
      load M N C1 ArrA k (j + 1),
      load M N C2 ArrA k (j + 2),
      load M N C3 ArrA k (j + 3),
      load M N C4 ArrA k (j + 4),
      load M N C5 ArrA k (j + 5),
      load M N C6 ArrA k (j + 6),
      load M N C7 ArrA k (j + 7),
      store M N ArrB j k C0,
      store M N ArrB (j + 1) k C1,
      store M N ArrB (j + 2) k C2,
      store M N ArrB (j + 3) k C3,
      store M N ArrB (j + 4) k C4,
      store M N ArrB (j + 5) k C5,
      store M N ArrB (j + 6) k C6,
      store M N ArrB (j + 7) k C7]"

definition transpose32x32 :: "int \<Rightarrow> int \<Rightarrow> state \<Rightarrow> unit result" where
  "transpose32x32 M N s =
     for_up8 0 N (\<lambda>i. for_up8 0 M (\<lambda>j. for_up1 i (i + 8) (t32_row M N j))) (enter s)"

text \<open>
  \<^verbatim>\<open>transpose32x64\<close>: stripes of four columns, ascending \<open>k\<close> in the stripes with
  \<^verbatim>\<open>(j/4) % 2 == 0\<close> and descending \<open>k\<close> in the others. Both branches run the same
  statements for a given \<open>k\<close>.
\<close>

definition t3264_row :: "int \<Rightarrow> int \<Rightarrow> int \<Rightarrow> int \<Rightarrow> state \<Rightarrow> unit result" where
  "t3264_row M N j k = block
     [load M N C0 ArrA k j,
      load M N C1 ArrA k (j + 1),
      load M N C2 ArrA k (j + 2),
      load M N C3 ArrA k (j + 3),
      store M N ArrB j k C0,
      store M N ArrB (j + 1) k C1,
      store M N ArrB (j + 2) k C2,
      store M N ArrB (j + 3) k C3]"

definition t3264_stripe :: "int \<Rightarrow> int \<Rightarrow> int \<Rightarrow> int \<Rightarrow> state \<Rightarrow> unit result" where
  "t3264_stripe M N i j =
     (if (j sdiv 4) smod 2 = 0
      then for_up1 i (i + 8) (t3264_row M N j)
      else for_down1 (i + 7) i (t3264_row M N j))"

definition transpose32x64 :: "int \<Rightarrow> int \<Rightarrow> state \<Rightarrow> unit result" where
  "transpose32x64 M N s = for_up8 0 N (\<lambda>i. for_up4 0 M (t3264_stripe M N i)) (enter s)"

text \<open>
  \<^verbatim>\<open>transpose64x64\<close>: as above, and the iteration \<open>k = i + 1\<close> of an even stripe also
  loads \<^verbatim>\<open>A[k][j+4..j+7]\<close> into \<open>c4..c7\<close>; the iteration \<open>k = i + 1\<close> of an odd stripe
  stores \<open>c4..c7\<close> and loads nothing.
\<close>

definition t64_even_row :: "int \<Rightarrow> int \<Rightarrow> int \<Rightarrow> int \<Rightarrow> int \<Rightarrow> state \<Rightarrow> unit result" where
  "t64_even_row M N i j k = block
     [load M N C0 ArrA k j,
      load M N C1 ArrA k (j + 1),
      load M N C2 ArrA k (j + 2),
      load M N C3 ArrA k (j + 3),
      (if k = i + 1
       then block
         [load M N C4 ArrA k (j + 4),
          load M N C5 ArrA k (j + 5),
          load M N C6 ArrA k (j + 6),
          load M N C7 ArrA k (j + 7)]
       else block []),
      store M N ArrB j k C0,
      store M N ArrB (j + 1) k C1,
      store M N ArrB (j + 2) k C2,
      store M N ArrB (j + 3) k C3]"

definition t64_odd_row :: "int \<Rightarrow> int \<Rightarrow> int \<Rightarrow> int \<Rightarrow> int \<Rightarrow> state \<Rightarrow> unit result" where
  "t64_odd_row M N i j k =
     (if k = i + 1
      then block
        [store M N ArrB j k C4,
         store M N ArrB (j + 1) k C5,
         store M N ArrB (j + 2) k C6,
         store M N ArrB (j + 3) k C7]
      else block
        [load M N C0 ArrA k j,
         load M N C1 ArrA k (j + 1),
         load M N C2 ArrA k (j + 2),
         load M N C3 ArrA k (j + 3),
         store M N ArrB j k C0,
         store M N ArrB (j + 1) k C1,
         store M N ArrB (j + 2) k C2,
         store M N ArrB (j + 3) k C3])"

definition t64_stripe :: "int \<Rightarrow> int \<Rightarrow> int \<Rightarrow> int \<Rightarrow> state \<Rightarrow> unit result" where
  "t64_stripe M N i j =
     (if (j sdiv 4) smod 2 = 0
      then for_up1 i (i + 8) (t64_even_row M N i j)
      else for_down1 (i + 7) i (t64_odd_row M N i j))"

definition transpose64x64 :: "int \<Rightarrow> int \<Rightarrow> state \<Rightarrow> unit result" where
  "transpose64x64 M N s = for_up8 0 N (\<lambda>i. for_up4 0 M (t64_stripe M N i)) (enter s)"

text \<open>\<^verbatim>\<open>test\<close>: a second copy of the statements of \<^verbatim>\<open>transpose64x64\<close>.\<close>

definition test_even_row :: "int \<Rightarrow> int \<Rightarrow> int \<Rightarrow> int \<Rightarrow> int \<Rightarrow> state \<Rightarrow> unit result" where
  "test_even_row M N i j k = block
     [load M N C0 ArrA k j,
      load M N C1 ArrA k (j + 1),
      load M N C2 ArrA k (j + 2),
      load M N C3 ArrA k (j + 3),
      (if k = i + 1
       then block
         [load M N C4 ArrA k (j + 4),
          load M N C5 ArrA k (j + 5),
          load M N C6 ArrA k (j + 6),
          load M N C7 ArrA k (j + 7)]
       else block []),
      store M N ArrB j k C0,
      store M N ArrB (j + 1) k C1,
      store M N ArrB (j + 2) k C2,
      store M N ArrB (j + 3) k C3]"

definition test_odd_row :: "int \<Rightarrow> int \<Rightarrow> int \<Rightarrow> int \<Rightarrow> int \<Rightarrow> state \<Rightarrow> unit result" where
  "test_odd_row M N i j k =
     (if k = i + 1
      then block
        [store M N ArrB j k C4,
         store M N ArrB (j + 1) k C5,
         store M N ArrB (j + 2) k C6,
         store M N ArrB (j + 3) k C7]
      else block
        [load M N C0 ArrA k j,
         load M N C1 ArrA k (j + 1),
         load M N C2 ArrA k (j + 2),
         load M N C3 ArrA k (j + 3),
         store M N ArrB j k C0,
         store M N ArrB (j + 1) k C1,
         store M N ArrB (j + 2) k C2,
         store M N ArrB (j + 3) k C3])"

definition test_stripe :: "int \<Rightarrow> int \<Rightarrow> int \<Rightarrow> int \<Rightarrow> state \<Rightarrow> unit result" where
  "test_stripe M N i j =
     (if (j sdiv 4) smod 2 = 0
      then for_up1 i (i + 8) (test_even_row M N i j)
      else for_down1 (i + 7) i (test_odd_row M N i j))"

definition test :: "int \<Rightarrow> int \<Rightarrow> state \<Rightarrow> unit result" where
  "test M N s = for_up8 0 N (\<lambda>i. for_up4 0 M (test_stripe M N i)) (enter s)"

text \<open>\<^verbatim>\<open>transpose_submit\<close>: the dispatcher. The callee's locals are its own.\<close>

definition transpose_submit :: "int \<Rightarrow> int \<Rightarrow> state \<Rightarrow> unit result" where
  "transpose_submit M N s =
     (if M = 32 \<and> N = 32 then transpose32x32 M N s
      else if M = 32 \<and> N = 64 then transpose32x64 M N s
      else transpose64x64 M N s)"

text \<open>
  \<^verbatim>\<open>is_transpose\<close>: the inner loop either runs to its end (\<open>None\<close>) or executes
  \<^verbatim>\<open>return 0\<close> (\<open>Some 0\<close>).
\<close>

definition differ :: "int \<Rightarrow> int \<Rightarrow> int \<Rightarrow> int \<Rightarrow> state \<Rightarrow> bool result" where
  "differ M N i j s =
     (if \<not> inside M N ArrA i j then Fault (ReadOutside ArrA i j) s
      else if \<not> inside M N ArrB j i then Fault (ReadOutside ArrB j i) s
      else Ok (cell (memA s) i j \<noteq> cell (memB s) j i)
              (s\<lparr>trace := trace s @ [Peek ArrA i j, Peek ArrB j i]\<rparr>))"

function is_transpose_j :: "int \<Rightarrow> int \<Rightarrow> int \<Rightarrow> int \<Rightarrow> state \<Rightarrow> int option result" where
  "is_transpose_j M N i j s =
     (if j < M
      then (case differ M N i j s of
              Fault f t \<Rightarrow> Fault f t
            | Ok d t \<Rightarrow> if d then Ok (Some 0) t else is_transpose_j M N i (j + 1) t)
      else Ok None s)"
  by pat_completeness auto
termination
  by (relation "measure (\<lambda>(M, N, i, j, s). nat (M - j))") auto

function is_transpose_i :: "int \<Rightarrow> int \<Rightarrow> int \<Rightarrow> state \<Rightarrow> int result" where
  "is_transpose_i M N i s =
     (if i < N
      then (case is_transpose_j M N i 0 s of
              Fault f t \<Rightarrow> Fault f t
            | Ok (Some r) t \<Rightarrow> Ok r t
            | Ok None t \<Rightarrow> is_transpose_i M N (i + 1) t)
      else Ok 1 s)"
  by pat_completeness auto
termination
  by (relation "measure (\<lambda>(M, N, i, s). nat (N - i))") auto

definition is_transpose :: "int \<Rightarrow> int \<Rightarrow> state \<Rightarrow> int result" where
  "is_transpose M N s = is_transpose_i M N 0 s"

declare for_up1.simps [simp del] for_up4.simps [simp del] for_up8.simps [simp del]
  for_down1.simps [simp del]

section \<open>Specification vocabulary\<close>

definition shape :: "int \<Rightarrow> int \<Rightarrow> matrix \<Rightarrow> bool" where
  "shape R C m \<longleftrightarrow> length m = nat R \<and> (\<forall>row \<in> set m. length row = nat C)"

definition transposed_on :: "(int \<times> int) set \<Rightarrow> matrix \<Rightarrow> matrix \<Rightarrow> bool" where
  "transposed_on D A B \<longleftrightarrow> (\<forall>(r, c) \<in> D. 0 \<le> r \<and> 0 \<le> c \<longrightarrow> cell B r c = cell A c r)"

definition hoare :: "(state \<Rightarrow> bool) \<Rightarrow> (state \<Rightarrow> unit result) \<Rightarrow> (state \<Rightarrow> bool) \<Rightarrow> bool" where
  "hoare P c Q \<longleftrightarrow> (\<forall>s. P s \<longrightarrow> (\<exists>t. c s = Ok () t \<and> Q t))"

definition event_inside :: "int \<Rightarrow> int \<Rightarrow> event \<Rightarrow> bool" where
  "event_inside M N e =
     (case e of Load x a r c \<Rightarrow> inside M N a r c
              | Store a r c x \<Rightarrow> inside M N a r c
              | Peek a r c \<Rightarrow> inside M N a r c)"

definition writes_A :: "event \<Rightarrow> bool" where
  "writes_A e = (case e of Store a r c x \<Rightarrow> a = ArrA | _ \<Rightarrow> False)"

definition logged :: "int \<Rightarrow> int \<Rightarrow> event list \<Rightarrow> event list \<Rightarrow> bool" where
  "logged M N t0 tr \<longleftrightarrow> (\<exists>ev. tr = t0 @ ev \<and> (\<forall>e \<in> set ev. event_inside M N e \<and> \<not> writes_A e))"

definition good :: "int \<Rightarrow> int \<Rightarrow> matrix \<Rightarrow> event list \<Rightarrow> (int \<times> int) set \<Rightarrow> state \<Rightarrow> bool" where
  "good M N A0 t0 D s \<longleftrightarrow>
     memA s = A0 \<and> shape M N (memB s) \<and> transposed_on D A0 (memB s) \<and> logged M N t0 (trace s)"

definition carry :: "matrix \<Rightarrow> int \<Rightarrow> int \<Rightarrow> state \<Rightarrow> bool" where
  "carry A0 r c s \<longleftrightarrow>
     vars s C4 = Some (cell A0 r c) \<and> vars s C5 = Some (cell A0 r (c + 1)) \<and>
     vars s C6 = Some (cell A0 r (c + 2)) \<and> vars s C7 = Some (cell A0 r (c + 3))"

definition transposed :: "int \<Rightarrow> int \<Rightarrow> matrix \<Rightarrow> matrix \<Rightarrow> bool" where
  "transposed M N A B \<longleftrightarrow> (\<forall>i j. 0 \<le> i \<and> i < N \<and> 0 \<le> j \<and> j < M \<longrightarrow> cell B j i = cell A i j)"

definition accesses_inside :: "int \<Rightarrow> int \<Rightarrow> state \<Rightarrow> state \<Rightarrow> bool" where
  "accesses_inside M N s t \<longleftrightarrow>
     (\<exists>ev. trace t = trace s @ ev \<and> (\<forall>e \<in> set ev. event_inside M N e))"

definition start :: "matrix \<Rightarrow> matrix \<Rightarrow> state" where
  "start A B = \<lparr>memA = A, memB = B, vars = Map.empty, trace = []\<rparr>"

definition zeros :: "nat \<Rightarrow> nat \<Rightarrow> matrix" where
  "zeros R C = replicate R (replicate C 0)"

definition ramp :: "nat \<Rightarrow> nat \<Rightarrow> matrix" where
  "ramp R C = map (\<lambda>i. map (\<lambda>j. word_of_nat (i * C + j)) [0..<C]) [0..<R]"

definition carry_vars :: "var set" where
  "carry_vars = {C4, C5, C6, C7}"

definition assigns_carry :: "event \<Rightarrow> bool" where
  "assigns_carry e = (case e of Load x a r c \<Rightarrow> x \<in> carry_vars | _ \<Rightarrow> False)"

definition uses_carry :: "event \<Rightarrow> bool" where
  "uses_carry e = (case e of Store a r c x \<Rightarrow> x \<in> carry_vars | _ \<Rightarrow> False)"

definition reads_row :: "int \<Rightarrow> event \<Rightarrow> bool" where
  "reads_row r e = (case e of Load x a r' c \<Rightarrow> a = ArrA \<and> r' = r | _ \<Rightarrow> False)"

definition returned :: "'a result \<Rightarrow> state option" where
  "returned r = (case r of Fault f t \<Rightarrow> None | Ok x t \<Rightarrow> Some t)"

definition fault_of :: "'a result \<Rightarrow> fault option" where
  "fault_of r = (case r of Fault f t \<Rightarrow> Some f | Ok x t \<Rightarrow> None)"

definition scenario_S1 :: state where
  "scenario_S1 = start [[1, 2], [3, 4]] [[0, 0], [0, 0]]"

definition final :: "'a result \<Rightarrow> state" where
  "final r = (case r of Fault f t \<Rightarrow> t | Ok x t \<Rightarrow> t)"

definition A_untouched :: "state \<Rightarrow> state \<Rightarrow> bool" where
  "A_untouched s t \<longleftrightarrow>
     memA t = memA s \<and> (\<exists>ev. trace t = trace s @ ev \<and> (\<forall>e \<in> set ev. \<not> writes_A e))"

definition keeps_A :: "(state \<Rightarrow> 'a result) \<Rightarrow> bool" where
  "keeps_A c \<longleftrightarrow> (\<forall>s. A_untouched s (final (c s)))"










section \<open>Matrices and loops\<close>

lemma shape_upd: "shape R C m \<Longrightarrow> shape R C (upd m r c v)"
proof (cases "nat r < length m")
  case True
  assume "shape R C m"
  with True have "length (m ! nat r) = nat C" by (simp add: shape_def)
  with \<open>shape R C m\<close> show ?thesis
    unfolding shape_def upd_def
    by (auto dest!: set_update_subset_insert [THEN subsetD])
next
  case False
  assume "shape R C m"
  with False show ?thesis by (simp add: upd_def not_less list_update_beyond)
qed

lemma cell_upd:
  assumes "shape R C m" "0 \<le> r" "r < R" "0 \<le> c" "c < C" "0 \<le> r'" "0 \<le> c'"
  shows "cell (upd m r c v) r' c' = (if r' = r \<and> c' = c then v else cell m r' c')"
proof -
  have len: "nat r < length m" using assms by (simp add: shape_def)
  then have "length (m ! nat r) = nat C" using assms by (simp add: shape_def)
  then have lc: "nat c < length (m ! nat r)" using assms by simp
  show ?thesis
    using len lc assms(2,4,6,7)
    by (auto simp: cell_def upd_def nth_list_update)
qed

lemma transposed_on_upd:
  assumes "transposed_on D A B" "shape R C B" "0 \<le> r" "r < R" "0 \<le> c" "c < C"
  shows "transposed_on (insert (r, c) D) A (upd B r c (cell A c r))"
  using assms unfolding transposed_on_def
  by (auto simp: cell_upd [where R = R and C = C])

lemma hoareI: "(\<And>s. P s \<Longrightarrow> \<exists>t. c s = Ok () t \<and> Q t) \<Longrightarrow> hoare P c Q"
  by (simp add: hoare_def)

lemma hoareD: "hoare P c Q \<Longrightarrow> P s \<Longrightarrow> \<exists>t. c s = Ok () t \<and> Q t"
  by (simp add: hoare_def)

lemma hoare_conseq: "hoare P c Q \<Longrightarrow> (\<And>s. P' s \<Longrightarrow> P s) \<Longrightarrow> (\<And>s. Q s \<Longrightarrow> Q' s) \<Longrightarrow> hoare P' c Q'"
  unfolding hoare_def by blast

lemma for_up1_total:
  "\<forall>k'. lo \<le> k' \<and> k' < hi \<longrightarrow> hoare (I k') (body k') (I (k' + 1)) \<Longrightarrow>
   I k s \<Longrightarrow> lo \<le> k \<Longrightarrow> k \<le> hi \<Longrightarrow> \<exists>t. for_up1 k hi body s = Ok () t \<and> I hi t"
proof (induction k hi body s rule: for_up1.induct)
  case (1 k hi body s)
  show ?case
  proof (cases "k < hi")
    case True
    from "1.prems" True obtain t where t: "body k s = Ok () t" "I (k + 1) t"
      by (auto dest: hoareD)
    from "1.IH" [OF True t(1)] "1.prems" t(2) True
    obtain u where u: "for_up1 (k + 1) hi body t = Ok () u" "I hi u" by auto
    have "for_up1 k hi body s = for_up1 (k + 1) hi body t"
      using True t(1) by (subst for_up1.simps) simp
    with u show ?thesis by simp
  next
    case False
    with "1.prems" have "k = hi" by simp
    with "1.prems"(2) show ?thesis by (subst for_up1.simps) simp
  qed
qed

lemma for_up4_total:
  "\<forall>k'. lo \<le> k' \<and> k' < hi \<and> (hi - k') mod 4 = 0 \<longrightarrow> hoare (I k') (body k') (I (k' + 4)) \<Longrightarrow>
   I k s \<Longrightarrow> lo \<le> k \<Longrightarrow> k \<le> hi \<Longrightarrow> (hi - k) mod 4 = 0 \<Longrightarrow>
   \<exists>t. for_up4 k hi body s = Ok () t \<and> I hi t"
proof (induction k hi body s rule: for_up4.induct)
  case (1 k hi body s)
  note step = "1.prems"(1) and inv = "1.prems"(2) and lo = "1.prems"(3)
    and hi = "1.prems"(4) and md = "1.prems"(5)
  show ?case
  proof (cases "k < hi")
    case True
    have "hoare (I k) (body k) (I (k + 4))"
      using step [rule_format, of k] lo md True by simp
    from hoareD [OF this inv] obtain t where t: "body k s = Ok () t" "I (k + 4) t"
      by (elim exE conjE)
    from md True have a: "k + 4 \<le> hi" by presburger
    from md have b: "(hi - (k + 4)) mod 4 = 0" by presburger
    from lo have c: "lo \<le> k + 4" by simp
    from "1.IH" [OF True t(1) step t(2) c a b]
    obtain u where u: "for_up4 (k + 4) hi body t = Ok () u" "I hi u" by (elim exE conjE)
    have "for_up4 k hi body s = for_up4 (k + 4) hi body t"
      using True t(1) by (subst for_up4.simps) simp
    with u show ?thesis by simp
  next
    case False
    with hi have "k = hi" by simp
    with inv show ?thesis by (subst for_up4.simps) simp
  qed
qed

lemma for_up8_total:
  "\<forall>k'. lo \<le> k' \<and> k' < hi \<and> (hi - k') mod 8 = 0 \<longrightarrow> hoare (I k') (body k') (I (k' + 8)) \<Longrightarrow>
   I k s \<Longrightarrow> lo \<le> k \<Longrightarrow> k \<le> hi \<Longrightarrow> (hi - k) mod 8 = 0 \<Longrightarrow>
   \<exists>t. for_up8 k hi body s = Ok () t \<and> I hi t"
proof (induction k hi body s rule: for_up8.induct)
  case (1 k hi body s)
  note step = "1.prems"(1) and inv = "1.prems"(2) and lo = "1.prems"(3)
    and hi = "1.prems"(4) and md = "1.prems"(5)
  show ?case
  proof (cases "k < hi")
    case True
    have "hoare (I k) (body k) (I (k + 8))"
      using step [rule_format, of k] lo md True by simp
    from hoareD [OF this inv] obtain t where t: "body k s = Ok () t" "I (k + 8) t"
      by (elim exE conjE)
    from md True have a: "k + 8 \<le> hi" by presburger
    from md have b: "(hi - (k + 8)) mod 8 = 0" by presburger
    from lo have c: "lo \<le> k + 8" by simp
    from "1.IH" [OF True t(1) step t(2) c a b]
    obtain u where u: "for_up8 (k + 8) hi body t = Ok () u" "I hi u" by (elim exE conjE)
    have "for_up8 k hi body s = for_up8 (k + 8) hi body t"
      using True t(1) by (subst for_up8.simps) simp
    with u show ?thesis by simp
  next
    case False
    with hi have "k = hi" by simp
    with inv show ?thesis by (subst for_up8.simps) simp
  qed
qed

lemma for_down1_total:
  "\<forall>k'. lo \<le> k' \<and> k' \<le> hi \<longrightarrow> hoare (I k') (body k') (I (k' - 1)) \<Longrightarrow>
   I k s \<Longrightarrow> lo - 1 \<le> k \<Longrightarrow> k \<le> hi \<Longrightarrow>
   \<exists>t. for_down1 k lo body s = Ok () t \<and> I (lo - 1) t"
proof (induction k lo body s rule: for_down1.induct)
  case (1 k lo body s)
  show ?case
  proof (cases "lo \<le> k")
    case True
    from "1.prems" True obtain t where t: "body k s = Ok () t" "I (k - 1) t"
      by (auto dest: hoareD)
    with "1.IH" [OF True t(1)] "1.prems" t(2) True
    obtain u where u: "for_down1 (k - 1) lo body t = Ok () u" "I (lo - 1) u" by auto
    have "for_down1 k lo body s = for_down1 (k - 1) lo body t"
      using True t(1) by (subst for_down1.simps) simp
    with u show ?thesis by simp
  next
    case False
    with "1.prems" have "k = lo - 1" by simp
    with "1.prems"(2) False show ?thesis by (subst for_down1.simps) simp
  qed
qed

lemma logged_refl: "logged M N t0 t0"
  by (simp add: logged_def)

lemma logged_append:
  "logged M N t0 tr \<Longrightarrow> \<forall>e \<in> set evs. event_inside M N e \<and> \<not> writes_A e \<Longrightarrow> logged M N t0 (tr @ evs)"
  unfolding logged_def by auto

lemma transposed_on_mono: "transposed_on D A B \<Longrightarrow> D' \<subseteq> D \<Longrightarrow> transposed_on D' A B"
  unfolding transposed_on_def by blast

lemma transposed_on_put:
  "transposed_on D A B \<Longrightarrow> shape M N B \<Longrightarrow> 0 \<le> r \<Longrightarrow> r < M \<Longrightarrow> 0 \<le> c \<Longrightarrow> c < N \<Longrightarrow>
   v = cell A c r \<Longrightarrow> transposed_on (insert (r, c) D) A (upd B r c v)"
  using transposed_on_upd by simp

lemmas exec_defs = load_def store_def inside_def rows_of_def cols_of_def mem_def put_def
  event_inside_def writes_A_def

lemma t32_row_good:
  assumes "0 \<le> j" "j + 8 \<le> M" "0 \<le> k" "k < N"
  shows "hoare (good M N A0 t0 D) (t32_row M N j k)
           (good M N A0 t0 (D \<union> {(r, c). j \<le> r \<and> r < j + 8 \<and> c = k}))"
proof (rule hoareI)
  fix s assume g: "good M N A0 t0 D s"
  let ?D = "insert (j + 7, k) (insert (j + 6, k) (insert (j + 5, k) (insert (j + 4, k)
            (insert (j + 3, k) (insert (j + 2, k) (insert (j + 1, k) (insert (j, k) D)))))))"
  from g have A: "memA s = A0" and sh: "shape M N (memB s)" and tr: "transposed_on D A0 (memB s)"
    and lg: "logged M N t0 (trace s)"
    by (simp_all add: good_def)
  have sub: "D \<union> {(r, c). j \<le> r \<and> r < j + 8 \<and> c = k} \<subseteq> ?D" by auto
  note put = transposed_on_put [where M = M and N = N]
  show "\<exists>t. t32_row M N j k s = Ok () t \<and>
            good M N A0 t0 (D \<union> {(r, c). j \<le> r \<and> r < j + 8 \<and> c = k}) t"
    using assms A
    apply (simp add: t32_row_def exec_defs good_def shape_upd sh)
    apply (intro conjI)
     apply (rule transposed_on_mono [OF _ sub])
     apply (intro put shape_upd sh tr; simp)
    apply (rule logged_append [OF lg])
    apply (simp add: exec_defs)
    done
qed

lemma good_mono: "good M N A0 t0 D s \<Longrightarrow> D' \<subseteq> D \<Longrightarrow> good M N A0 t0 D' s"
  unfolding good_def using transposed_on_mono by blast

lemma hoare_good_post:
  "hoare P c (good M N A0 t0 D) \<Longrightarrow> D' \<subseteq> D \<Longrightarrow> hoare P c (good M N A0 t0 D')"
  by (erule hoare_conseq) (auto intro: good_mono)

lemma hoare_good_pre:
  "hoare (good M N A0 t0 D) c Q \<Longrightarrow> D \<subseteq> D' \<Longrightarrow> hoare (good M N A0 t0 D') c Q"
  by (erule hoare_conseq) (auto intro: good_mono)

lemma t32_block_good:
  assumes "0 \<le> j" "j + 8 \<le> M" "0 \<le> i" "i + 8 \<le> N"
  shows "hoare (good M N A0 t0 D) (for_up1 i (i + 8) (t32_row M N j))
           (good M N A0 t0 (D \<union> {(r, c). j \<le> r \<and> r < j + 8 \<and> i \<le> c \<and> c < i + 8}))"
proof (rule hoareI)
  fix s assume g: "good M N A0 t0 D s"
  let ?I = "\<lambda>k. good M N A0 t0 (D \<union> {(r, c). j \<le> r \<and> r < j + 8 \<and> i \<le> c \<and> c < k})"
  have step: "\<forall>k. i \<le> k \<and> k < i + 8 \<longrightarrow> hoare (?I k) (t32_row M N j k) (?I (k + 1))"
  proof (intro allI impI)
    fix k assume k: "i \<le> k \<and> k < i + 8"
    with assms have "0 \<le> k" "k < N" by simp_all
    from t32_row_good [OF assms(1,2) this]
    show "hoare (?I k) (t32_row M N j k) (?I (k + 1))"
      by (rule hoare_good_post) auto
  qed
  have "?I i s" by (rule good_mono [OF g]) auto
  from for_up1_total [where I = ?I, OF step this] show
    "\<exists>t. for_up1 i (i + 8) (t32_row M N j) s = Ok () t \<and> ?I (i + 8) t" by simp
qed

lemma t32_band_good:
  assumes "0 \<le> M" "M mod 8 = 0" "0 \<le> i" "i + 8 \<le> N"
  shows "hoare (good M N A0 t0 D) (for_up8 0 M (\<lambda>j. for_up1 i (i + 8) (t32_row M N j)))
           (good M N A0 t0 (D \<union> {(r, c). 0 \<le> r \<and> r < M \<and> i \<le> c \<and> c < i + 8}))"
proof (rule hoareI)
  fix s assume g: "good M N A0 t0 D s"
  let ?I = "\<lambda>j. good M N A0 t0 (D \<union> {(r, c). 0 \<le> r \<and> r < j \<and> i \<le> c \<and> c < i + 8})"
  have step: "\<forall>j. 0 \<le> j \<and> j < M \<and> (M - j) mod 8 = 0 \<longrightarrow>
               hoare (?I j) (for_up1 i (i + 8) (t32_row M N j)) (?I (j + 8))"
  proof (intro allI impI)
    fix j assume j: "0 \<le> j \<and> j < M \<and> (M - j) mod 8 = 0"
    then have "0 \<le> j" "j + 8 \<le> M" by presburger+
    from t32_block_good [OF this assms(3,4)]
    show "hoare (?I j) (for_up1 i (i + 8) (t32_row M N j)) (?I (j + 8))"
      by (rule hoare_good_post) auto
  qed
  have "?I 0 s" by (rule good_mono [OF g]) auto
  from for_up8_total [where I = ?I, OF step this] assms(1,2) show
    "\<exists>t. for_up8 0 M (\<lambda>j. for_up1 i (i + 8) (t32_row M N j)) s = Ok () t \<and> ?I M t" by simp
qed

lemma good_enter: "good M N A0 t0 D (enter s) = good M N A0 t0 D s"
  by (simp add: good_def enter_def)

lemma good_start:
  "shape M N (memB s) \<Longrightarrow> good M N (memA s) (trace s) {} (enter s)"
  by (simp add: good_def enter_def transposed_on_def logged_refl)

lemma transpose32x32_good:
  assumes "0 \<le> M" "M mod 8 = 0" "0 \<le> N" "N mod 8 = 0" "shape M N (memB s)"
  shows "\<exists>t. transpose32x32 M N s = Ok () t \<and> good M N (memA s) (trace s) {(r, c). 0 \<le> r \<and> r < M \<and> 0 \<le> c \<and> c < N} t"
proof -
  let ?I = "\<lambda>i. good M N (memA s) (trace s) {(r, c). 0 \<le> r \<and> r < M \<and> 0 \<le> c \<and> c < i}"
  have step: "\<forall>i. 0 \<le> i \<and> i < N \<and> (N - i) mod 8 = 0 \<longrightarrow>
               hoare (?I i) (for_up8 0 M (\<lambda>j. for_up1 i (i + 8) (t32_row M N j))) (?I (i + 8))"
  proof (intro allI impI)
    fix i assume i: "0 \<le> i \<and> i < N \<and> (N - i) mod 8 = 0"
    then have "0 \<le> i" "i + 8 \<le> N" by presburger+
    from t32_band_good [OF assms(1,2) this]
    show "hoare (?I i) (for_up8 0 M (\<lambda>j. for_up1 i (i + 8) (t32_row M N j))) (?I (i + 8))"
      by (rule hoare_good_post) auto
  qed
  have "?I 0 (enter s)" by (rule good_mono [OF good_start [OF assms(5)]]) auto
  from for_up8_total [where I = ?I, OF step this] assms(3,4) show ?thesis
    by (simp add: transpose32x32_def)
qed

lemma stripe_parity: "0 \<le> j \<Longrightarrow> ((j sdiv 4) smod 2 = 0) = ((j div 4) mod 2 = (0::int))"
  by (auto simp: signed_divide_int_def signed_modulo_int_def sgn_if div_neg_pos_less0 pos_imp_zdiv_nonneg_iff)

lemma t3264_row_good:
  assumes "0 \<le> j" "j + 4 \<le> M" "0 \<le> k" "k < N"
  shows "hoare (good M N A0 t0 D) (t3264_row M N j k)
           (good M N A0 t0 (D \<union> {(r, c). j \<le> r \<and> r < j + 4 \<and> c = k}))"
proof (rule hoareI)
  fix s assume g: "good M N A0 t0 D s"
  let ?D = "insert (j + 3, k) (insert (j + 2, k) (insert (j + 1, k) (insert (j, k) D)))"
  from g have A: "memA s = A0" and sh: "shape M N (memB s)" and tr: "transposed_on D A0 (memB s)"
    and lg: "logged M N t0 (trace s)"
    by (simp_all add: good_def)
  have sub: "D \<union> {(r, c). j \<le> r \<and> r < j + 4 \<and> c = k} \<subseteq> ?D" by auto
  note put = transposed_on_put [where M = M and N = N]
  show "\<exists>t. t3264_row M N j k s = Ok () t \<and>
            good M N A0 t0 (D \<union> {(r, c). j \<le> r \<and> r < j + 4 \<and> c = k}) t"
    using assms A
    apply (simp add: t3264_row_def exec_defs good_def shape_upd sh)
    apply (intro conjI)
     apply (rule transposed_on_mono [OF _ sub])
     apply (intro put shape_upd sh tr; simp)
    apply (rule logged_append [OF lg])
    apply (simp add: exec_defs)
    done
qed

lemma t3264_stripe_good:
  assumes "0 \<le> j" "j + 4 \<le> M" "0 \<le> i" "i + 8 \<le> N"
  shows "hoare (good M N A0 t0 D) (t3264_stripe M N i j)
           (good M N A0 t0 (D \<union> {(r, c). j \<le> r \<and> r < j + 4 \<and> i \<le> c \<and> c < i + 8}))"
proof (rule hoareI)
  fix s assume g: "good M N A0 t0 D s"
  let ?R = "{(r, c). j \<le> r \<and> r < j + 4 \<and> i \<le> c \<and> c < i + 8}"
  have row: "hoare (good M N A0 t0 D') (t3264_row M N j k)
               (good M N A0 t0 (D' \<union> {(r, c). j \<le> r \<and> r < j + 4 \<and> c = k}))"
    if "i \<le> k \<and> k < i + 8" for k D'
    using that assms by (intro t3264_row_good) simp_all
  show "\<exists>t. t3264_stripe M N i j s = Ok () t \<and> good M N A0 t0 (D \<union> ?R) t"
  proof (cases "(j sdiv 4) smod 2 = 0")
    case True
    let ?I = "\<lambda>k. good M N A0 t0 (D \<union> {(r, c). j \<le> r \<and> r < j + 4 \<and> i \<le> c \<and> c < k})"
    have step: "\<forall>k. i \<le> k \<and> k < i + 8 \<longrightarrow> hoare (?I k) (t3264_row M N j k) (?I (k + 1))"
    proof (intro allI impI)
      fix k assume k: "i \<le> k \<and> k < i + 8"
      from row [OF k] show "hoare (?I k) (t3264_row M N j k) (?I (k + 1))"
        by (rule hoare_good_post) auto
    qed
    have "?I i s" by (rule good_mono [OF g]) auto
    from for_up1_total [where I = ?I, OF step this] True show ?thesis
      by (simp add: t3264_stripe_def)
  next
    case False
    let ?I = "\<lambda>k. good M N A0 t0 (D \<union> {(r, c). j \<le> r \<and> r < j + 4 \<and> k < c \<and> c < i + 8})"
    have step: "\<forall>k. i \<le> k \<and> k \<le> i + 7 \<longrightarrow> hoare (?I k) (t3264_row M N j k) (?I (k - 1))"
    proof (intro allI impI)
      fix k assume k: "i \<le> k \<and> k \<le> i + 7"
      then have "i \<le> k \<and> k < i + 8" by simp
      from row [OF this] show "hoare (?I k) (t3264_row M N j k) (?I (k - 1))"
        by (rule hoare_good_post) auto
    qed
    have "?I (i + 7) s" by (rule good_mono [OF g]) auto
    from for_down1_total [where I = ?I, OF step this]
    obtain t where "for_down1 (i + 7) i (t3264_row M N j) s = Ok () t" "?I (i - 1) t" by auto
    moreover from this(2) have "good M N A0 t0 (D \<union> ?R) t" by (rule good_mono) auto
    ultimately show ?thesis using False by (simp add: t3264_stripe_def)
  qed
qed

lemma t3264_band_good:
  assumes "0 \<le> M" "M mod 4 = 0" "0 \<le> i" "i + 8 \<le> N"
  shows "hoare (good M N A0 t0 D) (for_up4 0 M (t3264_stripe M N i))
           (good M N A0 t0 (D \<union> {(r, c). 0 \<le> r \<and> r < M \<and> i \<le> c \<and> c < i + 8}))"
proof (rule hoareI)
  fix s assume g: "good M N A0 t0 D s"
  let ?I = "\<lambda>j. good M N A0 t0 (D \<union> {(r, c). 0 \<le> r \<and> r < j \<and> i \<le> c \<and> c < i + 8})"
  have step: "\<forall>j. 0 \<le> j \<and> j < M \<and> (M - j) mod 4 = 0 \<longrightarrow>
               hoare (?I j) (t3264_stripe M N i j) (?I (j + 4))"
  proof (intro allI impI)
    fix j assume j: "0 \<le> j \<and> j < M \<and> (M - j) mod 4 = 0"
    then have "0 \<le> j" "j + 4 \<le> M" by presburger+
    from t3264_stripe_good [OF this assms(3,4)]
    show "hoare (?I j) (t3264_stripe M N i j) (?I (j + 4))"
      by (rule hoare_good_post) auto
  qed
  have "?I 0 s" by (rule good_mono [OF g]) auto
  from for_up4_total [where I = ?I, OF step this] assms(1,2) show
    "\<exists>t. for_up4 0 M (t3264_stripe M N i) s = Ok () t \<and> ?I M t" by simp
qed

lemma transpose32x64_good:
  assumes "0 \<le> M" "M mod 4 = 0" "0 \<le> N" "N mod 8 = 0" "shape M N (memB s)"
  shows "\<exists>t. transpose32x64 M N s = Ok () t \<and>
           good M N (memA s) (trace s) {(r, c). 0 \<le> r \<and> r < M \<and> 0 \<le> c \<and> c < N} t"
proof -
  let ?I = "\<lambda>i. good M N (memA s) (trace s) {(r, c). 0 \<le> r \<and> r < M \<and> 0 \<le> c \<and> c < i}"
  have step: "\<forall>i. 0 \<le> i \<and> i < N \<and> (N - i) mod 8 = 0 \<longrightarrow>
               hoare (?I i) (for_up4 0 M (t3264_stripe M N i)) (?I (i + 8))"
  proof (intro allI impI)
    fix i assume i: "0 \<le> i \<and> i < N \<and> (N - i) mod 8 = 0"
    then have "0 \<le> i" "i + 8 \<le> N" by presburger+
    from t3264_band_good [OF assms(1,2) this]
    show "hoare (?I i) (for_up4 0 M (t3264_stripe M N i)) (?I (i + 8))"
      by (rule hoare_good_post) auto
  qed
  have "?I 0 (enter s)" by (rule good_mono [OF good_start [OF assms(5)]]) auto
  from for_up8_total [where I = ?I, OF step this] assms(3,4) show ?thesis
    by (simp add: transpose32x64_def)
qed

lemma t64_even_row_good:
  assumes "0 \<le> j" "j + 8 \<le> M" "0 \<le> k" "k < N"
  shows "hoare (\<lambda>s. good M N A0 t0 D s \<and> (i + 1 < k \<longrightarrow> carry A0 (i + 1) (j + 4) s))
           (t64_even_row M N i j k)
           (\<lambda>s. good M N A0 t0 (D \<union> {(r, c). j \<le> r \<and> r < j + 4 \<and> c = k}) s \<and>
                (i + 1 < k + 1 \<longrightarrow> carry A0 (i + 1) (j + 4) s))"
proof (rule hoareI)
  fix s assume "good M N A0 t0 D s \<and> (i + 1 < k \<longrightarrow> carry A0 (i + 1) (j + 4) s)"
  then have g: "good M N A0 t0 D s" and cr: "i + 1 < k \<longrightarrow> carry A0 (i + 1) (j + 4) s" by simp_all
  let ?D = "insert (j + 3, k) (insert (j + 2, k) (insert (j + 1, k) (insert (j, k) D)))"
  from g have A: "memA s = A0" and sh: "shape M N (memB s)" and tr: "transposed_on D A0 (memB s)"
    and lg: "logged M N t0 (trace s)"
    by (simp_all add: good_def)
  have sub: "D \<union> {(r, c). j \<le> r \<and> r < j + 4 \<and> c = k} \<subseteq> ?D" by auto
  note put = transposed_on_put [where M = M and N = N]
  show "\<exists>t. t64_even_row M N i j k s = Ok () t \<and>
            good M N A0 t0 (D \<union> {(r, c). j \<le> r \<and> r < j + 4 \<and> c = k}) t \<and>
            (i + 1 < k + 1 \<longrightarrow> carry A0 (i + 1) (j + 4) t)"
  proof (cases "k = i + 1")
    case True
    show ?thesis
      using assms A True [symmetric]
      apply (simp add: t64_even_row_def exec_defs good_def shape_upd sh carry_def)
      apply (intro conjI)
      subgoal by (rule transposed_on_mono [OF _ sub]) (intro put shape_upd sh tr; simp)
      subgoal by (rule logged_append [OF lg]) (simp add: exec_defs)
      apply (simp_all add: add.commute)?
      done
  next
    case False
    show ?thesis
      using assms A False cr
      apply (simp add: t64_even_row_def exec_defs good_def shape_upd sh carry_def)
      apply (intro conjI)
      subgoal by (rule transposed_on_mono [OF _ sub]) (intro put shape_upd sh tr; simp)
      subgoal by (rule logged_append [OF lg]) (simp add: exec_defs)
      apply (simp_all add: add.commute)?
      done
  qed
qed

lemma t64_odd_row_good:
  assumes "0 \<le> j" "j + 4 \<le> M" "0 \<le> k" "k < N"
  shows "hoare (\<lambda>s. good M N A0 t0 D s \<and> carry A0 (i + 1) j s)
           (t64_odd_row M N i j k)
           (\<lambda>s. good M N A0 t0 (D \<union> {(r, c). j \<le> r \<and> r < j + 4 \<and> c = k}) s \<and>
                carry A0 (i + 1) j s)"
proof (rule hoareI)
  fix s assume "good M N A0 t0 D s \<and> carry A0 (i + 1) j s"
  then have g: "good M N A0 t0 D s" and cr: "carry A0 (i + 1) j s" by simp_all
  let ?D = "insert (j + 3, k) (insert (j + 2, k) (insert (j + 1, k) (insert (j, k) D)))"
  from g have A: "memA s = A0" and sh: "shape M N (memB s)" and tr: "transposed_on D A0 (memB s)"
    and lg: "logged M N t0 (trace s)"
    by (simp_all add: good_def)
  have sub: "D \<union> {(r, c). j \<le> r \<and> r < j + 4 \<and> c = k} \<subseteq> ?D" by auto
  note put = transposed_on_put [where M = M and N = N]
  show "\<exists>t. t64_odd_row M N i j k s = Ok () t \<and>
            good M N A0 t0 (D \<union> {(r, c). j \<le> r \<and> r < j + 4 \<and> c = k}) t \<and>
            carry A0 (i + 1) j t"
  proof (cases "k = i + 1")
    case True
    show ?thesis
      using assms A True [symmetric] cr
      apply (simp add: t64_odd_row_def exec_defs good_def shape_upd sh carry_def)
      apply (intro conjI)
      subgoal by (rule transposed_on_mono [OF _ sub]) (intro put shape_upd sh tr; simp)
      subgoal by (rule logged_append [OF lg]) (simp add: exec_defs)
      apply (simp_all add: add.commute)?
      done
  next
    case False
    show ?thesis
      using assms A False cr
      apply (simp add: t64_odd_row_def exec_defs good_def shape_upd sh carry_def)
      apply (intro conjI)
      subgoal by (rule transposed_on_mono [OF _ sub]) (intro put shape_upd sh tr; simp)
      subgoal by (rule logged_append [OF lg]) (simp add: exec_defs)
      apply (simp_all add: add.commute)?
      done
  qed
qed

lemma t64_even_good:
  assumes "0 \<le> j" "j + 8 \<le> M" "0 \<le> i" "i + 8 \<le> N"
  shows "hoare (good M N A0 t0 D) (for_up1 i (i + 8) (t64_even_row M N i j))
           (\<lambda>s. good M N A0 t0 (D \<union> {(r, c). j \<le> r \<and> r < j + 4 \<and> i \<le> c \<and> c < i + 8}) s \<and>
                carry A0 (i + 1) (j + 4) s)"
proof (rule hoareI)
  fix s assume g: "good M N A0 t0 D s"
  let ?I = "\<lambda>k s. good M N A0 t0 (D \<union> {(r, c). j \<le> r \<and> r < j + 4 \<and> i \<le> c \<and> c < k}) s \<and>
                 (i + 1 < k \<longrightarrow> carry A0 (i + 1) (j + 4) s)"
  have step: "\<forall>k. i \<le> k \<and> k < i + 8 \<longrightarrow> hoare (?I k) (t64_even_row M N i j k) (?I (k + 1))"
  proof (intro allI impI)
    fix k assume k: "i \<le> k \<and> k < i + 8"
    with assms have "0 \<le> k" "k < N" by simp_all
    from t64_even_row_good [OF assms(1,2) this]
    show "hoare (?I k) (t64_even_row M N i j k) (?I (k + 1))"
      by (rule hoare_conseq) (auto elim!: good_mono)
  qed
  have "good M N A0 t0 (D \<union> {(r, c). j \<le> r \<and> r < j + 4 \<and> i \<le> c \<and> c < i}) s"
    by (rule good_mono [OF g]) auto
  then have "?I i s" by simp
  from for_up1_total [where I = ?I, OF step this] show
    "\<exists>t. for_up1 i (i + 8) (t64_even_row M N i j) s = Ok () t \<and>
       good M N A0 t0 (D \<union> {(r, c). j \<le> r \<and> r < j + 4 \<and> i \<le> c \<and> c < i + 8}) t \<and>
       carry A0 (i + 1) (j + 4) t" by simp
qed

lemma t64_odd_good:
  assumes "0 \<le> j" "j + 4 \<le> M" "0 \<le> i" "i + 8 \<le> N"
  shows "hoare (\<lambda>s. good M N A0 t0 D s \<and> carry A0 (i + 1) j s)
           (for_down1 (i + 7) i (t64_odd_row M N i j))
           (good M N A0 t0 (D \<union> {(r, c). j \<le> r \<and> r < j + 4 \<and> i \<le> c \<and> c < i + 8}))"
proof (rule hoareI)
  fix s assume "good M N A0 t0 D s \<and> carry A0 (i + 1) j s"
  then have g: "good M N A0 t0 D s" and cr: "carry A0 (i + 1) j s" by simp_all
  let ?I = "\<lambda>k s. good M N A0 t0 (D \<union> {(r, c). j \<le> r \<and> r < j + 4 \<and> k < c \<and> c < i + 8}) s \<and>
                 carry A0 (i + 1) j s"
  have step: "\<forall>k. i \<le> k \<and> k \<le> i + 7 \<longrightarrow> hoare (?I k) (t64_odd_row M N i j k) (?I (k - 1))"
  proof (intro allI impI)
    fix k assume k: "i \<le> k \<and> k \<le> i + 7"
    with assms have "0 \<le> k" "k < N" by simp_all
    from t64_odd_row_good [OF assms(1,2) this]
    show "hoare (?I k) (t64_odd_row M N i j k) (?I (k - 1))"
      by (rule hoare_conseq) (auto elim!: good_mono)
  qed
  have "good M N A0 t0 (D \<union> {(r, c). j \<le> r \<and> r < j + 4 \<and> i + 7 < c \<and> c < i + 8}) s"
    by (rule good_mono [OF g]) auto
  with cr have "?I (i + 7) s" by simp
  from for_down1_total [where I = ?I, OF step this]
  obtain t where t: "for_down1 (i + 7) i (t64_odd_row M N i j) s = Ok () t" "?I (i - 1) t" by auto
  from t(2) have "good M N A0 t0 (D \<union> {(r, c). j \<le> r \<and> r < j + 4 \<and> i \<le> c \<and> c < i + 8}) t"
    by (auto elim!: good_mono)
  with t(1) show "\<exists>t. for_down1 (i + 7) i (t64_odd_row M N i j) s = Ok () t \<and>
       good M N A0 t0 (D \<union> {(r, c). j \<le> r \<and> r < j + 4 \<and> i \<le> c \<and> c < i + 8}) t" by simp
qed

lemma t64_stripe_good:
  assumes "0 \<le> j" "j < M" "M mod 8 = 0" "j mod 4 = 0" "0 \<le> i" "i + 8 \<le> N"
  shows "hoare (\<lambda>s. good M N A0 t0 D s \<and> ((j div 4) mod 2 \<noteq> 0 \<longrightarrow> carry A0 (i + 1) j s))
           (t64_stripe M N i j)
           (\<lambda>s. good M N A0 t0 (D \<union> {(r, c). j \<le> r \<and> r < j + 4 \<and> i \<le> c \<and> c < i + 8}) s \<and>
                (((j + 4) div 4) mod 2 \<noteq> 0 \<longrightarrow> carry A0 (i + 1) (j + 4) s))"
proof (cases "(j div 4) mod 2 = 0")
  case True
  with assms have "j + 8 \<le> M" by presburger
  note ev = t64_even_good [OF assms(1) this assms(5,6), of A0 t0 D]
  from True have eq: "t64_stripe M N i j = for_up1 i (i + 8) (t64_even_row M N i j)"
    by (simp add: t64_stripe_def stripe_parity [OF assms(1)])
  show ?thesis unfolding eq by (rule hoare_conseq [OF ev]) simp_all
next
  case False
  with assms have "j + 4 \<le> M" by presburger
  note od = t64_odd_good [OF assms(1) this assms(5,6), of A0 t0 D]
  from False assms have nxt: "((j + 4) div 4) mod 2 = 0" by presburger
  from False have eq: "t64_stripe M N i j = for_down1 (i + 7) i (t64_odd_row M N i j)"
    by (simp add: t64_stripe_def stripe_parity [OF assms(1)])
  show ?thesis unfolding eq using False nxt by (intro hoare_conseq [OF od]) simp_all
qed

lemma t64_band_good:
  assumes "0 \<le> M" "M mod 8 = 0" "0 \<le> i" "i + 8 \<le> N"
  shows "hoare (good M N A0 t0 D) (for_up4 0 M (t64_stripe M N i))
           (good M N A0 t0 (D \<union> {(r, c). 0 \<le> r \<and> r < M \<and> i \<le> c \<and> c < i + 8}))"
proof (rule hoareI)
  fix s assume g: "good M N A0 t0 D s"
  let ?I = "\<lambda>j s. good M N A0 t0 (D \<union> {(r, c). 0 \<le> r \<and> r < j \<and> i \<le> c \<and> c < i + 8}) s \<and>
                 ((j div 4) mod 2 \<noteq> 0 \<longrightarrow> carry A0 (i + 1) j s)"
  have step: "\<forall>j. 0 \<le> j \<and> j < M \<and> (M - j) mod 4 = 0 \<longrightarrow>
               hoare (?I j) (t64_stripe M N i j) (?I (j + 4))"
  proof (intro allI impI)
    fix j assume j: "0 \<le> j \<and> j < M \<and> (M - j) mod 4 = 0"
    with assms(2) have "0 \<le> j" "j < M" "j mod 4 = 0" by presburger+
    from t64_stripe_good [OF this(1,2) assms(2) this(3) assms(3,4)]
    show "hoare (?I j) (t64_stripe M N i j) (?I (j + 4))"
      by (rule hoare_conseq) (auto elim!: good_mono)
  qed
  have "good M N A0 t0 (D \<union> {(r, c). 0 \<le> r \<and> r < 0 \<and> i \<le> c \<and> c < i + 8}) s"
    by (rule good_mono [OF g]) auto
  then have i0: "?I 0 s" by simp
  from assms(2) have m4: "(M - 0) mod 4 = 0" by presburger
  from for_up4_total [where I = ?I, OF step i0 order_refl assms(1) m4]
  show "\<exists>t. for_up4 0 M (t64_stripe M N i) s = Ok () t \<and>
       good M N A0 t0 (D \<union> {(r, c). 0 \<le> r \<and> r < M \<and> i \<le> c \<and> c < i + 8}) t" by iprover
qed

lemma transpose64x64_good:
  assumes "0 \<le> M" "M mod 8 = 0" "0 \<le> N" "N mod 8 = 0" "shape M N (memB s)"
  shows "\<exists>t. transpose64x64 M N s = Ok () t \<and>
           good M N (memA s) (trace s) {(r, c). 0 \<le> r \<and> r < M \<and> 0 \<le> c \<and> c < N} t"
proof -
  let ?I = "\<lambda>i. good M N (memA s) (trace s) {(r, c). 0 \<le> r \<and> r < M \<and> 0 \<le> c \<and> c < i}"
  have step: "\<forall>i. 0 \<le> i \<and> i < N \<and> (N - i) mod 8 = 0 \<longrightarrow>
               hoare (?I i) (for_up4 0 M (t64_stripe M N i)) (?I (i + 8))"
  proof (intro allI impI)
    fix i assume i: "0 \<le> i \<and> i < N \<and> (N - i) mod 8 = 0"
    then have "0 \<le> i" "i + 8 \<le> N" by presburger+
    from t64_band_good [OF assms(1,2) this]
    show "hoare (?I i) (for_up4 0 M (t64_stripe M N i)) (?I (i + 8))"
      by (rule hoare_good_post) auto
  qed
  have "?I 0 (enter s)" by (rule good_mono [OF good_start [OF assms(5)]]) auto
  from for_up8_total [where I = ?I, OF step this] assms(3,4) show ?thesis
    by (simp add: transpose64x64_def)
qed

lemma shape_zeros: "shape (int R) (int C) (zeros R C)"
  by (simp add: shape_def zeros_def)

lemma shape_ramp: "shape (int R) (int C) (ramp R C)"
  by (auto simp: shape_def ramp_def)

lemma cell_ramp: "i < R \<Longrightarrow> j < C \<Longrightarrow> cell (ramp R C) (int i) (int j) = word_of_nat (i * C + j)"
  by (simp add: cell_def ramp_def)

lemma transposedD:
  "transposed M N A B \<Longrightarrow> 0 \<le> i \<Longrightarrow> i < N \<Longrightarrow> 0 \<le> j \<Longrightarrow> j < M \<Longrightarrow> cell B j i = cell A i j"
  by (simp add: transposed_def)

lemma good_full:
  assumes "good M N A0 t0 {(r, c). 0 \<le> r \<and> r < M \<and> 0 \<le> c \<and> c < N} t"
  shows "memA t = A0" "shape M N (memB t)" "transposed M N A0 (memB t)"
    "\<exists>ev. trace t = t0 @ ev \<and> (\<forall>e \<in> set ev. event_inside M N e \<and> \<not> writes_A e)"
  using assms by (auto simp: good_def transposed_def transposed_on_def logged_def)

lemma good_full_inside:
  assumes "good M N (memA s) (trace s) {(r, c). 0 \<le> r \<and> r < M \<and> 0 \<le> c \<and> c < N} t"
  shows "accesses_inside M N s t"
  using good_full(4) [OF assms] unfolding accesses_inside_def by auto

section \<open>The dispatcher\<close>

text \<open>
  Claim C6. \<open>transpose_submit\<close> selects by exact shape: \<open>M = 32\<close> and \<open>N = 32\<close> runs
  \<open>transpose32x32\<close>, \<open>M = 32\<close> and \<open>N = 64\<close> runs \<open>transpose32x64\<close>, and every
  other pair, \<open>(64, 64)\<close> among them, runs \<open>transpose64x64\<close>.
\<close>

theorem transpose_submit_dispatch:
  "(M = 32 \<and> N = 32 \<longrightarrow> transpose_submit M N s = transpose32x32 M N s) \<and>
   (M = 32 \<and> N = 64 \<longrightarrow> transpose_submit M N s = transpose32x64 M N s) \<and>
   (\<not> (M = 32 \<and> N = 32) \<and> \<not> (M = 32 \<and> N = 64) \<longrightarrow>
      transpose_submit M N s = transpose64x64 M N s)"
  by (simp add: transpose_submit_def)

theorem transpose_submit_dispatch_witness:
  "transpose_submit 64 64 (start (ramp 64 64) (zeros 64 64)) =
     transpose64x64 64 64 (start (ramp 64 64) (zeros 64 64))"
  using transpose_submit_dispatch [of 64 64 "start (ramp 64 64) (zeros 64 64)"] by simp

section \<open>The stripe routine on every shape of multiples of eight\<close>

text \<open>
  Claim C10. For all positive multiples of eight \<open>M\<close> and \<open>N\<close>, \<open>transpose64x64\<close>
  returns without a fault, leaves \<open>A\<close> as it was, and has \<open>B[j][i] = A[i][j]\<close> for every
  \<open>i\<close> in \<open>[0, N)\<close> and \<open>j\<close> in \<open>[0, M)\<close>; every access it logged is inside
  the declared rectangles; and when the dispatcher falls through to it, the dispatcher
  returns the same state.
\<close>

theorem transpose64x64_multiples_of_8:
  assumes "0 < M" "M mod 8 = 0" "0 < N" "N mod 8 = 0"
    and "shape N M (memA s)" "shape M N (memB s)"
  shows "\<exists>t. transpose64x64 M N s = Ok () t \<and> memA t = memA s \<and>
           transposed M N (memA s) (memB t) \<and> accesses_inside M N s t \<and>
           (\<not> (M = 32 \<and> N = 32) \<and> \<not> (M = 32 \<and> N = 64) \<longrightarrow> transpose_submit M N s = Ok () t)"
proof -
  from assms have "0 \<le> M" "0 \<le> N" by simp_all
  from transpose64x64_good [OF this(1) assms(2) this(2) assms(4,6)]
  obtain t where t: "transpose64x64 M N s = Ok () t"
    and g: "good M N (memA s) (trace s) {(r, c). 0 \<le> r \<and> r < M \<and> 0 \<le> c \<and> c < N} t"
    by iprover
  from t have "\<not> (M = 32 \<and> N = 32) \<and> \<not> (M = 32 \<and> N = 64) \<longrightarrow> transpose_submit M N s = Ok () t"
    by (simp add: transpose_submit_def)
  with t good_full(1,3) [OF g] good_full_inside [OF g] show ?thesis by iprover
qed

theorem transpose64x64_multiples_of_8_witness:
  "shape 8 16 (ramp 8 16) \<and> shape 16 8 (zeros 16 8) \<and>
   (\<exists>t. transpose64x64 16 8 (start (ramp 8 16) (zeros 16 8)) = Ok () t \<and>
        transpose_submit 16 8 (start (ramp 8 16) (zeros 16 8)) = Ok () t \<and>
        memA t = ramp 8 16 \<and> cell (memB t) 11 5 = 91)"
proof -
  let ?s = "start (ramp 8 16) (zeros 16 8)"
  have a: "shape 8 16 (memA ?s)" using shape_ramp [of 8 16] by (simp add: start_def)
  have b: "shape 16 8 (memB ?s)" using shape_zeros [of 16 8] by (simp add: start_def)
  from transpose64x64_multiples_of_8 [of 16 8 ?s, OF _ _ _ _ a b]
  obtain t where t: "transpose64x64 16 8 ?s = Ok () t" "memA t = memA ?s"
    "transposed 16 8 (memA ?s) (memB t)" "transpose_submit 16 8 ?s = Ok () t"
    by auto
  from transposedD [OF t(3), of 5 11] cell_ramp [of 5 8 11 16]
  have "cell (memB t) 11 5 = 91" by (simp add: start_def)
  with t a b show ?thesis by (auto simp: start_def)
qed

lemma block_nest: "block [c, block cs] = block (c # cs)"
  by (rule ext) (simp split: result.splits)

lemma for_up1_step: "k < hi \<Longrightarrow> for_up1 k hi body = block [body k, for_up1 (k + 1) hi body]"
  by (rule ext, subst for_up1.simps) (simp split: result.splits)

lemma for_up1_stop: "\<not> k < hi \<Longrightarrow> for_up1 k hi body = block []"
  by (rule ext, subst for_up1.simps) simp

lemma for_down1_step: "lo \<le> k \<Longrightarrow> for_down1 k lo body = block [body k, for_down1 (k - 1) lo body]"
  by (rule ext, subst for_down1.simps) (simp split: result.splits)

lemma for_down1_stop: "\<not> lo \<le> k \<Longrightarrow> for_down1 k lo body = block []"
  by (rule ext, subst for_down1.simps) simp

lemma for_up1_unroll8:
  "for_up1 i (i + 8) body =
     block [body i, body (i + 1), body (i + 2), body (i + 3),
            body (i + 4), body (i + 5), body (i + 6), body (i + 7)]"
  by (simp add: for_up1_step for_up1_stop block_nest add.commute)

lemma for_down1_unroll8:
  "for_down1 (i + 7) i body =
     block [body (i + 7), body (i + 6), body (i + 5), body (i + 4),
            body (i + 3), body (i + 2), body (i + 1), body i]"
  by (simp add: for_down1_step for_down1_stop block_nest add.commute)

lemmas event_defs = carry_vars_def assigns_carry_def uses_carry_def reads_row_def

lemma even_stripe_exec:
  assumes "0 \<le> i" "i + 8 \<le> N" "0 \<le> j" "j + 8 \<le> M"
  shows "\<exists>t ev. for_up1 i (i + 8) (t64_even_row M N i j) s = Ok () t \<and>
           trace t = trace s @ ev \<and> memA t = memA s \<and>
           filter assigns_carry ev =
             [Load C4 ArrA (i + 1) (j + 4), Load C5 ArrA (i + 1) (j + 5),
              Load C6 ArrA (i + 1) (j + 6), Load C7 ArrA (i + 1) (j + 7)] \<and>
           filter uses_carry ev = [] \<and>
           vars t C4 = Some (cell (memA s) (i + 1) (j + 4)) \<and>
           vars t C5 = Some (cell (memA s) (i + 1) (j + 5)) \<and>
           vars t C6 = Some (cell (memA s) (i + 1) (j + 6)) \<and>
           vars t C7 = Some (cell (memA s) (i + 1) (j + 7))"
  using assms
  by (simp add: for_up1_unroll8 t64_even_row_def exec_defs event_defs)

lemma odd_stripe_exec:
  assumes "0 \<le> i" "i + 8 \<le> N" "0 \<le> j" "j + 4 \<le> M"
    and "vars s C4 = Some v4" "vars s C5 = Some v5" "vars s C6 = Some v6" "vars s C7 = Some v7"
  shows "\<exists>t ev. for_down1 (i + 7) i (t64_odd_row M N i j) s = Ok () t \<and>
           trace t = trace s @ ev \<and> memA t = memA s \<and>
           filter assigns_carry ev = [] \<and>
           filter uses_carry ev =
             [Store ArrB j (i + 1) C4, Store ArrB (j + 1) (i + 1) C5,
              Store ArrB (j + 2) (i + 1) C6, Store ArrB (j + 3) (i + 1) C7] \<and>
           filter (reads_row (i + 1)) ev = [] \<and>
           vars t C4 = Some v4 \<and> vars t C5 = Some v5 \<and> vars t C6 = Some v6 \<and> vars t C7 = Some v7"
  using assms
  by (simp add: for_down1_unroll8 t64_odd_row_def exec_defs event_defs)

section \<open>The carry of the stripe routine\<close>

text \<open>An even stripe and the odd stripe after it, run from any state inside the arrays.\<close>

lemma stripe_pair_carry:
  assumes "0 \<le> i" "i + 8 \<le> N" "0 \<le> j" "j + 8 \<le> M" "(j sdiv 4) smod 2 = 0"
    and "shape M N (memB s)"
  shows "\<exists>s1 s2 ev1 ev2.
           t64_stripe M N i j s = Ok () s1 \<and> trace s1 = trace s @ ev1 \<and>
           t64_stripe M N i (j + 4) s1 = Ok () s2 \<and> trace s2 = trace s1 @ ev2 \<and>
           memA s2 = memA s \<and>
           filter assigns_carry ev1 =
             [Load C4 ArrA (i + 1) (j + 4), Load C5 ArrA (i + 1) (j + 5),
              Load C6 ArrA (i + 1) (j + 6), Load C7 ArrA (i + 1) (j + 7)] \<and>
           filter uses_carry ev1 = [] \<and>
           carry (memA s) (i + 1) (j + 4) s1 \<and>
           filter assigns_carry ev2 = [] \<and>
           filter (reads_row (i + 1)) ev2 = [] \<and>
           filter uses_carry ev2 =
             [Store ArrB (j + 4) (i + 1) C4, Store ArrB (j + 5) (i + 1) C5,
              Store ArrB (j + 6) (i + 1) C6, Store ArrB (j + 7) (i + 1) C7] \<and>
           cell (memB s2) (j + 4) (i + 1) = cell (memA s) (i + 1) (j + 4) \<and>
           cell (memB s2) (j + 5) (i + 1) = cell (memA s) (i + 1) (j + 5) \<and>
           cell (memB s2) (j + 6) (i + 1) = cell (memA s) (i + 1) (j + 6) \<and>
           cell (memB s2) (j + 7) (i + 1) = cell (memA s) (i + 1) (j + 7)"
proof -
  let ?A = "memA s"
  from assms(5) have par: "(j div 4) mod 2 = 0" by (simp add: stripe_parity [OF assms(3)])
  have e1: "t64_stripe M N i j = for_up1 i (i + 8) (t64_even_row M N i j)"
    by (simp add: t64_stripe_def assms(5))
  from par have "((j + 4) div 4) mod 2 \<noteq> 0" by presburger
  moreover from assms(3) have j4: "0 \<le> j + 4" by simp
  ultimately have "(((j + 4) sdiv 4) smod 2 = 0) = False" by (simp add: stripe_parity)
  then have e2: "t64_stripe M N i (j + 4) = for_down1 (i + 7) i (t64_odd_row M N i (j + 4))"
    by (simp add: t64_stripe_def)
  from assms(4) have j8: "j + 4 + 4 \<le> M" by simp
  from even_stripe_exec [OF assms(1-4), of s]
  obtain s1 ev1 where s1: "for_up1 i (i + 8) (t64_even_row M N i j) s = Ok () s1"
    and tr1: "trace s1 = trace s @ ev1"
    and a1: "filter assigns_carry ev1 =
             [Load C4 ArrA (i + 1) (j + 4), Load C5 ArrA (i + 1) (j + 5),
              Load C6 ArrA (i + 1) (j + 6), Load C7 ArrA (i + 1) (j + 7)]"
    and u1: "filter uses_carry ev1 = []"
    and c4: "vars s1 C4 = Some (cell ?A (i + 1) (j + 4))"
    and c5: "vars s1 C5 = Some (cell ?A (i + 1) (j + 5))"
    and c6: "vars s1 C6 = Some (cell ?A (i + 1) (j + 6))"
    and c7: "vars s1 C7 = Some (cell ?A (i + 1) (j + 7))"
    by (elim exE conjE)
  have cr: "carry ?A (i + 1) (j + 4) s1"
    using c4 c5 c6 c7 by (simp add: carry_def add.commute)
  have g0: "good M N ?A (trace s) {} s"
    by (simp add: good_def transposed_on_def logged_refl assms(6))
  from hoareD [OF t64_even_good [OF assms(3,4,1,2)] g0] s1
  have g1: "good M N ?A (trace s)
              ({} \<union> {(r, c). j \<le> r \<and> r < j + 4 \<and> i \<le> c \<and> c < i + 8}) s1"
    by simp
  from odd_stripe_exec [OF assms(1,2) j4 j8 c4 c5 c6 c7]
  obtain s2 ev2 where s2: "for_down1 (i + 7) i (t64_odd_row M N i (j + 4)) s1 = Ok () s2"
    and tr2: "trace s2 = trace s1 @ ev2"
    and m2: "memA s2 = memA s1"
    and a2: "filter assigns_carry ev2 = []"
    and u2: "filter uses_carry ev2 =
             [Store ArrB (j + 4) (i + 1) C4, Store ArrB (j + 4 + 1) (i + 1) C5,
              Store ArrB (j + 4 + 2) (i + 1) C6, Store ArrB (j + 4 + 3) (i + 1) C7]"
    and r2: "filter (reads_row (i + 1)) ev2 = []"
    by (elim exE conjE)
  from g1 have m1: "memA s1 = ?A" by (simp add: good_def)
  from hoareD [OF t64_odd_good [OF j4 j8 assms(1,2)], of ?A "trace s" _ s1] g1 cr s2
  have "good M N ?A (trace s)
          (({} \<union> {(r, c). j \<le> r \<and> r < j + 4 \<and> i \<le> c \<and> c < i + 8}) \<union>
           {(r, c). j + 4 \<le> r \<and> r < j + 4 + 4 \<and> i \<le> c \<and> c < i + 8}) s2"
    by simp
  then have "transposed_on {(j + 4, i + 1), (j + 5, i + 1), (j + 6, i + 1), (j + 7, i + 1)} ?A (memB s2)"
    unfolding good_def by (elim conjE, elim transposed_on_mono) auto
  with assms(1,3) have cells:
    "cell (memB s2) (j + 4) (i + 1) = cell ?A (i + 1) (j + 4)"
    "cell (memB s2) (j + 5) (i + 1) = cell ?A (i + 1) (j + 5)"
    "cell (memB s2) (j + 6) (i + 1) = cell ?A (i + 1) (j + 6)"
    "cell (memB s2) (j + 7) (i + 1) = cell ?A (i + 1) (j + 7)"
    by (simp_all add: transposed_on_def)
  from u2 have u2': "filter uses_carry ev2 =
             [Store ArrB (j + 4) (i + 1) C4, Store ArrB (j + 5) (i + 1) C5,
              Store ArrB (j + 6) (i + 1) C6, Store ArrB (j + 7) (i + 1) C7]"
    by simp
  from s1 have x1: "t64_stripe M N i j s = Ok () s1" by (simp add: e1)
  from s2 have x2: "t64_stripe M N i (j + 4) s1 = Ok () s2" by (simp add: e2)
  from m1 m2 have x3: "memA s2 = ?A" by simp
  show ?thesis
    using x1 tr1 x2 tr2 x3 a1 u1 cr a2 r2 u2' cells by iprover
qed

lemma trans_cell_good:
  assumes "0 \<le> i" "i < N" "0 \<le> j" "j < M"
  shows "hoare (good M N A0 t0 D) (trans_cell M N i j) (good M N A0 t0 (insert (j, i) D))"
proof (rule hoareI)
  fix s assume g: "good M N A0 t0 D s"
  from g have A: "memA s = A0" and sh: "shape M N (memB s)" and tr: "transposed_on D A0 (memB s)"
    and lg: "logged M N t0 (trace s)"
    by (simp_all add: good_def)
  note put = transposed_on_put [where M = M and N = N]
  show "\<exists>t. trans_cell M N i j s = Ok () t \<and> good M N A0 t0 (insert (j, i) D) t"
    using assms A
    apply (simp add: trans_cell_def exec_defs good_def shape_upd sh)
    apply (intro conjI)
    subgoal by (intro put shape_upd sh tr; simp)
    subgoal by (rule logged_append [OF lg]) (simp add: exec_defs)
    done
qed

lemma trans_row_good:
  assumes "0 \<le> M" "0 \<le> i" "i < N"
  shows "hoare (good M N A0 t0 D) (for_up1 0 M (\<lambda>j. trans_cell M N i j))
           (good M N A0 t0 (D \<union> {(r, c). 0 \<le> r \<and> r < M \<and> c = i}))"
proof (rule hoareI)
  fix s assume g: "good M N A0 t0 D s"
  let ?I = "\<lambda>j. good M N A0 t0 (D \<union> {(r, c). 0 \<le> r \<and> r < j \<and> c = i})"
  have step: "\<forall>j. 0 \<le> j \<and> j < M \<longrightarrow> hoare (?I j) (trans_cell M N i j) (?I (j + 1))"
  proof (intro allI impI)
    fix j assume j: "0 \<le> j \<and> j < M"
    then have "0 \<le> j" "j < M" by simp_all
    from trans_cell_good [OF assms(2,3) this]
    show "hoare (?I j) (trans_cell M N i j) (?I (j + 1))"
      by (rule hoare_good_post) auto
  qed
  have "?I 0 s" by (rule good_mono [OF g]) auto
  from for_up1_total [where I = ?I, OF step this order_refl assms(1)] show
    "\<exists>t. for_up1 0 M (\<lambda>j. trans_cell M N i j) s = Ok () t \<and> ?I M t" .
qed

lemma trans_good:
  assumes "0 \<le> M" "0 \<le> N" "shape M N (memB s)"
  shows "\<exists>t. trans M N s = Ok () t \<and>
           good M N (memA s) (trace s) {(r, c). 0 \<le> r \<and> r < M \<and> 0 \<le> c \<and> c < N} t"
proof -
  let ?I = "\<lambda>i. good M N (memA s) (trace s) {(r, c). 0 \<le> r \<and> r < M \<and> 0 \<le> c \<and> c < i}"
  have step: "\<forall>i. 0 \<le> i \<and> i < N \<longrightarrow>
               hoare (?I i) (for_up1 0 M (\<lambda>j. trans_cell M N i j)) (?I (i + 1))"
  proof (intro allI impI)
    fix i assume i: "0 \<le> i \<and> i < N"
    then have "0 \<le> i" "i < N" by simp_all
    from trans_row_good [OF assms(1) this]
    show "hoare (?I i) (for_up1 0 M (\<lambda>j. trans_cell M N i j)) (?I (i + 1))"
      by (rule hoare_good_post) auto
  qed
  have "?I 0 (enter s)" by (rule good_mono [OF good_start [OF assms(3)]]) auto
  from for_up1_total [where I = ?I, OF step this order_refl assms(2)] show ?thesis
    by (simp add: trans_def)
qed

lemma matrix_eqI:
  assumes "shape M N B" "shape M N B'" "transposed M N A B" "transposed M N A B'"
  shows "B = B'"
proof (rule nth_equalityI)
  from assms(1,2) show "length B = length B'" by (simp add: shape_def)
next
  fix r assume r: "r < length B"
  with assms(1,2) have rM: "int r < M" and lr: "length (B ! r) = nat N" "length (B' ! r) = nat N"
    by (auto simp: shape_def)
  show "B ! r = B' ! r"
  proof (rule nth_equalityI)
    from lr show "length (B ! r) = length (B' ! r)" by simp
  next
    fix c assume "c < length (B ! r)"
    with lr have cN: "int c < N" by simp
    from transposedD [OF assms(3), of "int c" "int r"] transposedD [OF assms(4), of "int c" "int r"]
      rM cN
    show "B ! r ! c = B' ! r ! c" by (simp add: cell_def)
  qed
qed

lemma test_eq: "test M N s = transpose64x64 M N s"
proof -
  have "test_even_row = t64_even_row"
    by (intro ext) (simp add: test_even_row_def t64_even_row_def)
  moreover have "test_odd_row = t64_odd_row"
    by (intro ext) (simp add: test_odd_row_def t64_odd_row_def)
  ultimately have "test_stripe = t64_stripe"
    by (intro ext) (simp add: test_stripe_def t64_stripe_def)
  then show ?thesis by (simp add: test_def transpose64x64_def)
qed

lemma supported_good:
  assumes "(M = 32 \<and> N = 32) \<or> (M = 32 \<and> N = 64) \<or> (M = 64 \<and> N = 64)"
    and "shape M N (memB s)"
  shows "\<exists>t. transpose_submit M N s = Ok () t \<and>
           good M N (memA s) (trace s) {(r, c). 0 \<le> r \<and> r < M \<and> 0 \<le> c \<and> c < N} t"
  using assms(1)
proof (elim disjE conjE)
  assume "M = 32" "N = 32"
  with transpose32x32_good [of M N s] assms(2) show ?thesis
    by (simp add: transpose_submit_def)
next
  assume "M = 32" "N = 64"
  with transpose32x64_good [of M N s] assms(2) show ?thesis
    by (simp add: transpose_submit_def)
next
  assume "M = 64" "N = 64"
  with transpose64x64_good [of M N s] assms(2) show ?thesis
    by (simp add: transpose_submit_def)
qed

lemma submit_good:
  assumes "0 \<le> M" "M mod 8 = 0" "0 \<le> N" "N mod 8 = 0" "shape M N (memB s)"
  shows "\<exists>t. transpose_submit M N s = Ok () t \<and>
           good M N (memA s) (trace s) {(r, c). 0 \<le> r \<and> r < M \<and> 0 \<le> c \<and> c < N} t"
proof -
  from assms(2) have m4: "M mod 4 = 0" by presburger
  consider "M = 32 \<and> N = 32" | "\<not> (M = 32 \<and> N = 32) \<and> M = 32 \<and> N = 64"
    | "\<not> (M = 32 \<and> N = 32) \<and> \<not> (M = 32 \<and> N = 64)" by fast
  then show ?thesis
  proof cases
    case 1
    with transpose32x32_good [OF assms] show ?thesis by (simp add: transpose_submit_def)
  next
    case 2
    with transpose32x64_good [OF assms(1) m4 assms(3,4,5)] show ?thesis
      by (simp add: transpose_submit_def)
  next
    case 3
    then have "transpose_submit M N s = transpose64x64 M N s"
      by (auto simp: transpose_submit_def)
    with transpose64x64_good [OF assms] show ?thesis by simp
  qed
qed

text \<open>
  Claim C1. For each of the shapes \<open>(32, 32)\<close>, \<open>(32, 64)\<close> and \<open>(64, 64)\<close>,
  \<open>transpose_submit\<close> returns, and then \<open>B[j][i] = A[i][j]\<close> for every \<open>i\<close> in \<open>[0, N)\<close>
  and \<open>j\<close> in \<open>[0, M)\<close>, where \<open>A\<close> is the matrix on entry; \<open>A\<close> itself is unchanged.
\<close>

theorem transpose_submit_supported_shapes:
  assumes "(M = 32 \<and> N = 32) \<or> (M = 32 \<and> N = 64) \<or> (M = 64 \<and> N = 64)"
    and "shape N M (memA s)" "shape M N (memB s)"
  shows "\<exists>t. transpose_submit M N s = Ok () t \<and> memA t = memA s \<and>
           transposed M N (memA s) (memB t)"
proof -
  from supported_good [OF assms(1,3)] obtain t where t: "transpose_submit M N s = Ok () t"
    and g: "good M N (memA s) (trace s) {(r, c). 0 \<le> r \<and> r < M \<and> 0 \<le> c \<and> c < N} t"
    by iprover
  from t good_full(1,3) [OF g] show ?thesis by iprover
qed

theorem transpose_submit_supported_shapes_witness:
  "shape 32 32 (ramp 32 32) \<and> shape 32 32 (zeros 32 32) \<and>
   (\<exists>t. transpose_submit 32 32 (start (ramp 32 32) (zeros 32 32)) = Ok () t \<and>
        cell (memB t) 7 30 = 967) \<and>
   shape 64 32 (ramp 64 32) \<and> shape 32 64 (zeros 32 64) \<and>
   (\<exists>t. transpose_submit 32 64 (start (ramp 64 32) (zeros 32 64)) = Ok () t \<and>
        cell (memB t) 7 40 = 1287) \<and>
   shape 64 64 (ramp 64 64) \<and> shape 64 64 (zeros 64 64) \<and>
   (\<exists>t. transpose_submit 64 64 (start (ramp 64 64) (zeros 64 64)) = Ok () t \<and>
        cell (memB t) 7 40 = 2567)"
proof -
  let ?s1 = "start (ramp 32 32) (zeros 32 32)"
  let ?s2 = "start (ramp 64 32) (zeros 32 64)"
  let ?s3 = "start (ramp 64 64) (zeros 64 64)"
  have a1: "shape 32 32 (memA ?s1)" using shape_ramp [of 32 32] by (simp add: start_def)
  have b1: "shape 32 32 (memB ?s1)" using shape_zeros [of 32 32] by (simp add: start_def)
  have a2: "shape 64 32 (memA ?s2)" using shape_ramp [of 64 32] by (simp add: start_def)
  have b2: "shape 32 64 (memB ?s2)" using shape_zeros [of 32 64] by (simp add: start_def)
  have a3: "shape 64 64 (memA ?s3)" using shape_ramp [of 64 64] by (simp add: start_def)
  have b3: "shape 64 64 (memB ?s3)" using shape_zeros [of 64 64] by (simp add: start_def)
  from transpose_submit_supported_shapes [of 32 32 ?s1, OF _ a1 b1]
  obtain t1 where t1: "transpose_submit 32 32 ?s1 = Ok () t1"
    "transposed 32 32 (memA ?s1) (memB t1)" by auto
  from transposedD [OF t1(2), of 30 7] cell_ramp [of 30 32 7 32]
  have c1: "cell (memB t1) 7 30 = 967" by (simp add: start_def)
  from transpose_submit_supported_shapes [of 32 64 ?s2, OF _ a2 b2]
  obtain t2 where t2: "transpose_submit 32 64 ?s2 = Ok () t2"
    "transposed 32 64 (memA ?s2) (memB t2)" by auto
  from transposedD [OF t2(2), of 40 7] cell_ramp [of 40 64 7 32]
  have c2: "cell (memB t2) 7 40 = 1287" by (simp add: start_def)
  from transpose_submit_supported_shapes [of 64 64 ?s3, OF _ a3 b3]
  obtain t3 where t3: "transpose_submit 64 64 ?s3 = Ok () t3"
    "transposed 64 64 (memA ?s3) (memB t3)" by auto
  from transposedD [OF t3(2), of 40 7] cell_ramp [of 40 64 7 64]
  have c3: "cell (memB t3) 7 40 = 2567" by (simp add: start_def)
  from a1 b1 a2 b2 a3 b3 have sh: "shape 32 32 (ramp 32 32)" "shape 32 32 (zeros 32 32)"
    "shape 64 32 (ramp 64 32)" "shape 32 64 (zeros 32 64)"
    "shape 64 64 (ramp 64 64)" "shape 64 64 (zeros 64 64)"
    by (simp_all add: start_def)
  from t1(1) c1 have e1: "\<exists>t. transpose_submit 32 32 ?s1 = Ok () t \<and> cell (memB t) 7 30 = 967"
    by iprover
  from t2(1) c2 have e2: "\<exists>t. transpose_submit 32 64 ?s2 = Ok () t \<and> cell (memB t) 7 40 = 1287"
    by iprover
  from t3(1) c3 have e3: "\<exists>t. transpose_submit 64 64 ?s3 = Ok () t \<and> cell (memB t) 7 40 = 2567"
    by iprover
  from sh e1 e2 e3 show ?thesis by iprover
qed

lemma for_up4_step: "k < hi \<Longrightarrow> for_up4 k hi body = block [body k, for_up4 (k + 4) hi body]"
  by (rule ext, subst for_up4.simps) (simp split: result.splits)

lemma for_up8_step: "k < hi \<Longrightarrow> for_up8 k hi body = block [body k, for_up8 (k + 8) hi body]"
  by (rule ext, subst for_up8.simps) (simp split: result.splits)

lemma fallback_2x2:
  "transpose_submit 2 2 scenario_S1 =
     Fault (ReadOutside ArrA 0 2)
       \<lparr>memA = [[1, 2], [3, 4]], memB = [[0, 0], [0, 0]],
         vars = [C0 \<mapsto> 1, C1 \<mapsto> 2],
         trace = [Load C0 ArrA 0 0, Load C1 ArrA 0 1]\<rparr>"
  by (simp add: scenario_S1_def start_def transpose_submit_def transpose64x64_def enter_def
      for_up8_step for_up4_step for_up1_step t64_stripe_def t64_even_row_def exec_defs cell_def)

text \<open>
  Claim C3, as stated, fails on scenario S1: with \<open>N = 2\<close>, \<open>M = 2\<close> and
  \<open>A = [[1, 2], [3, 4]]\<close> the dispatcher runs \<open>transpose64x64\<close>, whose first row
  iteration loads \<open>A[0][2]\<close>; the call does not return a matrix.
\<close>

theorem fallback_2x2_does_not_return:
  "returned (transpose_submit 2 2 scenario_S1) = None"
  by (simp add: fallback_2x2 returned_def)

text \<open>
  Claim C3, amended. For every shape whose \<open>M\<close> and \<open>N\<close> are positive multiples of eight
  and that is neither \<open>(32, 32)\<close> nor \<open>(32, 64)\<close>, \<open>transpose_submit\<close> falls through to
  \<open>transpose64x64\<close> and returns with \<open>B[j][i] = A[i][j]\<close> for every \<open>i\<close> in \<open>[0, N)\<close> and
  \<open>j\<close> in \<open>[0, M)\<close>.
\<close>

theorem transpose_submit_fallback:
  assumes "\<not> (M = 32 \<and> N = 32)" "\<not> (M = 32 \<and> N = 64)"
    and "0 < M" "M mod 8 = 0" "0 < N" "N mod 8 = 0"
    and "shape N M (memA s)" "shape M N (memB s)"
  shows "transpose_submit M N s = transpose64x64 M N s \<and>
         (\<exists>t. transpose_submit M N s = Ok () t \<and> memA t = memA s \<and>
              transposed M N (memA s) (memB t))"
proof -
  from assms(1,2) have eq: "transpose_submit M N s = transpose64x64 M N s"
    by (auto simp: transpose_submit_def)
  from assms have "0 \<le> M" "0 \<le> N" by simp_all
  from transpose64x64_good [OF this(1) assms(4) this(2) assms(6,8)]
  obtain t where t: "transpose64x64 M N s = Ok () t"
    and g: "good M N (memA s) (trace s) {(r, c). 0 \<le> r \<and> r < M \<and> 0 \<le> c \<and> c < N} t"
    by iprover
  from t eq have "transpose_submit M N s = Ok () t" by simp
  with eq good_full(1,3) [OF g] show ?thesis by iprover
qed

theorem transpose_submit_fallback_witness:
  "shape 24 8 (ramp 24 8) \<and> shape 8 24 (zeros 8 24) \<and>
   transpose_submit 8 24 (start (ramp 24 8) (zeros 8 24)) =
     transpose64x64 8 24 (start (ramp 24 8) (zeros 8 24)) \<and>
   (\<exists>t. transpose_submit 8 24 (start (ramp 24 8) (zeros 8 24)) = Ok () t \<and>
        memA t = ramp 24 8 \<and> cell (memB t) 3 17 = 139)"
proof -
  let ?s = "start (ramp 24 8) (zeros 8 24)"
  have a: "shape 24 8 (memA ?s)" using shape_ramp [of 24 8] by (simp add: start_def)
  have b: "shape 8 24 (memB ?s)" using shape_zeros [of 8 24] by (simp add: start_def)
  from transpose_submit_fallback [of 8 24 ?s, OF _ _ _ _ _ _ a b]
  obtain t where eq: "transpose_submit 8 24 ?s = transpose64x64 8 24 ?s"
    and t: "transpose_submit 8 24 ?s = Ok () t" "memA t = memA ?s"
    "transposed 8 24 (memA ?s) (memB t)"
    by auto
  from transposedD [OF t(3), of 17 3] cell_ramp [of 17 24 3 8]
  have c: "cell (memB t) 3 17 = 139" by (simp add: start_def)
  from t(2) have m: "memA t = ramp 24 8" by (simp add: start_def)
  from t(1) m c have "\<exists>t. transpose_submit 8 24 ?s = Ok () t \<and> memA t = ramp 24 8 \<and>
      cell (memB t) 3 17 = 139" by iprover
  with a b eq show ?thesis by (simp add: start_def)
qed

text \<open>
  Claim C4, as stated, fails on the fallback path: on scenario S1 the dispatcher runs
  \<open>transpose64x64\<close> with \<open>M = N = 2\<close>, and its third statement reads \<open>A[0][2]\<close>, outside
  the declared two by two array.
\<close>

theorem fallback_2x2_reads_outside:
  "fault_of (transpose_submit 2 2 scenario_S1) = Some (ReadOutside ArrA 0 2)"
  by (simp add: fallback_2x2 fault_of_def)

text \<open>
  Claim C4, amended. On every shape whose \<open>M\<close> and \<open>N\<close> are positive multiples of eight
  (the three supported shapes are such, and so is the fallback path of the dispatcher
  on such a shape), each of \<open>transpose_submit\<close>, \<open>trans\<close>, \<open>transpose32x32\<close>,
  \<open>transpose32x64\<close>, \<open>transpose64x64\<close> and \<open>test\<close> returns without a fault, and every
  read and every write it logged has its indices inside the declared array.
\<close>

theorem accesses_inside_multiples_of_8:
  assumes "0 < M" "M mod 8 = 0" "0 < N" "N mod 8 = 0"
    and "shape N M (memA s)" "shape M N (memB s)"
  shows "(\<exists>t. transpose_submit M N s = Ok () t \<and> accesses_inside M N s t) \<and>
         (\<exists>t. trans M N s = Ok () t \<and> accesses_inside M N s t) \<and>
         (\<exists>t. transpose32x32 M N s = Ok () t \<and> accesses_inside M N s t) \<and>
         (\<exists>t. transpose32x64 M N s = Ok () t \<and> accesses_inside M N s t) \<and>
         (\<exists>t. transpose64x64 M N s = Ok () t \<and> accesses_inside M N s t) \<and>
         (\<exists>t. test M N s = Ok () t \<and> accesses_inside M N s t)"
proof -
  from assms have nn: "0 \<le> M" "0 \<le> N" by simp_all
  from assms(2) have m4: "M mod 4 = 0" by presburger
  note ins = good_full_inside
  have 1: "\<exists>t. transpose_submit M N s = Ok () t \<and> accesses_inside M N s t"
    using submit_good [OF nn(1) assms(2) nn(2) assms(4,6)] ins by iprover
  have 2: "\<exists>t. trans M N s = Ok () t \<and> accesses_inside M N s t"
    using trans_good [OF nn assms(6)] ins by iprover
  have 3: "\<exists>t. transpose32x32 M N s = Ok () t \<and> accesses_inside M N s t"
    using transpose32x32_good [OF nn(1) assms(2) nn(2) assms(4,6)] ins by iprover
  have 4: "\<exists>t. transpose32x64 M N s = Ok () t \<and> accesses_inside M N s t"
    using transpose32x64_good [OF nn(1) m4 nn(2) assms(4,6)] ins by iprover
  have 5: "\<exists>t. transpose64x64 M N s = Ok () t \<and> accesses_inside M N s t"
    using transpose64x64_good [OF nn(1) assms(2) nn(2) assms(4,6)] ins by iprover
  from 5 have 6: "\<exists>t. test M N s = Ok () t \<and> accesses_inside M N s t"
    by (simp add: test_eq)
  from 1 2 3 4 5 6 show ?thesis by iprover
qed

theorem accesses_inside_multiples_of_8_witness:
  "shape 64 64 (ramp 64 64) \<and> shape 64 64 (zeros 64 64) \<and>
   (\<exists>t. transpose_submit 64 64 (start (ramp 64 64) (zeros 64 64)) = Ok () t \<and>
        accesses_inside 64 64 (start (ramp 64 64) (zeros 64 64)) t) \<and>
   (\<exists>t. test 64 64 (start (ramp 64 64) (zeros 64 64)) = Ok () t \<and>
        accesses_inside 64 64 (start (ramp 64 64) (zeros 64 64)) t)"
proof -
  let ?s = "start (ramp 64 64) (zeros 64 64)"
  have a: "shape 64 64 (memA ?s)" using shape_ramp [of 64 64] by (simp add: start_def)
  have b: "shape 64 64 (memB ?s)" using shape_zeros [of 64 64] by (simp add: start_def)
  from accesses_inside_multiples_of_8 [of 64 64 ?s, OF _ _ _ _ a b] a b show ?thesis
    by (simp add: start_def)
qed

lemma A_untouched_refl: "A_untouched s s"
  by (simp add: A_untouched_def)

lemma A_untouched_trans: "A_untouched s t \<Longrightarrow> A_untouched t u \<Longrightarrow> A_untouched s u"
  unfolding A_untouched_def by auto

lemma keeps_A_D: "keeps_A c \<Longrightarrow> A_untouched s (final (c s))"
  by (simp add: keeps_A_def)

lemma keeps_A_load: "keeps_A (load M N x a r c)"
  by (simp add: keeps_A_def A_untouched_def final_def load_def writes_A_def)

lemma keeps_A_store: "keeps_A (store M N ArrB r c x)"
  by (simp add: keeps_A_def A_untouched_def final_def store_def put_def writes_A_def
      split: option.splits)

lemma keeps_A_block: "\<forall>c \<in> set cs. keeps_A c \<Longrightarrow> keeps_A (block cs)"
proof (induction cs)
  case Nil
  show ?case by (simp add: keeps_A_def final_def A_untouched_refl)
next
  case (Cons c cs)
  then have c: "keeps_A c" and cs: "keeps_A (block cs)" by simp_all
  show ?case
    unfolding keeps_A_def
  proof
    fix s
    show "A_untouched s (final (block (c # cs) s))"
    proof (cases "c s")
      case (Fault f t)
      with keeps_A_D [OF c, of s] show ?thesis by (simp add: final_def)
    next
      case (Ok x t)
      with keeps_A_D [OF c, of s] have "A_untouched s t" by (simp add: final_def)
      from A_untouched_trans [OF this keeps_A_D [OF cs, of t]] Ok show ?thesis by simp
    qed
  qed
qed

lemma keeps_A_if: "keeps_A c \<Longrightarrow> keeps_A d \<Longrightarrow> keeps_A (if b then c else d)"
  by simp

lemma for_up1_untouched:
  "\<forall>k. keeps_A (body k) \<Longrightarrow> A_untouched s (final (for_up1 k hi body s))"
proof (induction k hi body s rule: for_up1.induct)
  case (1 k hi body s)
  show ?case
  proof (cases "k < hi")
    case False
    then show ?thesis by (subst for_up1.simps) (simp add: final_def A_untouched_refl)
  next
    case True
    from "1.prems" have b: "A_untouched s (final (body k s))" by (simp add: keeps_A_def)
    show ?thesis
    proof (cases "body k s")
      case (Fault f t)
      with b True show ?thesis by (subst for_up1.simps) (simp add: final_def)
    next
      case (Ok x t)
      with b have "A_untouched s t" by (simp add: final_def)
      from A_untouched_trans [OF this "1.IH" [OF True Ok "1.prems"]] True Ok
      show ?thesis by (subst for_up1.simps) simp
    qed
  qed
qed

lemma for_up4_untouched:
  "\<forall>k. keeps_A (body k) \<Longrightarrow> A_untouched s (final (for_up4 k hi body s))"
proof (induction k hi body s rule: for_up4.induct)
  case (1 k hi body s)
  show ?case
  proof (cases "k < hi")
    case False
    then show ?thesis by (subst for_up4.simps) (simp add: final_def A_untouched_refl)
  next
    case True
    from "1.prems" have b: "A_untouched s (final (body k s))" by (simp add: keeps_A_def)
    show ?thesis
    proof (cases "body k s")
      case (Fault f t)
      with b True show ?thesis by (subst for_up4.simps) (simp add: final_def)
    next
      case (Ok x t)
      with b have "A_untouched s t" by (simp add: final_def)
      from A_untouched_trans [OF this "1.IH" [OF True Ok "1.prems"]] True Ok
      show ?thesis by (subst for_up4.simps) simp
    qed
  qed
qed

lemma for_up8_untouched:
  "\<forall>k. keeps_A (body k) \<Longrightarrow> A_untouched s (final (for_up8 k hi body s))"
proof (induction k hi body s rule: for_up8.induct)
  case (1 k hi body s)
  show ?case
  proof (cases "k < hi")
    case False
    then show ?thesis by (subst for_up8.simps) (simp add: final_def A_untouched_refl)
  next
    case True
    from "1.prems" have b: "A_untouched s (final (body k s))" by (simp add: keeps_A_def)
    show ?thesis
    proof (cases "body k s")
      case (Fault f t)
      with b True show ?thesis by (subst for_up8.simps) (simp add: final_def)
    next
      case (Ok x t)
      with b have "A_untouched s t" by (simp add: final_def)
      from A_untouched_trans [OF this "1.IH" [OF True Ok "1.prems"]] True Ok
      show ?thesis by (subst for_up8.simps) simp
    qed
  qed
qed

lemma for_down1_untouched:
  "\<forall>k. keeps_A (body k) \<Longrightarrow> A_untouched s (final (for_down1 k lo body s))"
proof (induction k lo body s rule: for_down1.induct)
  case (1 k lo body s)
  show ?case
  proof (cases "lo \<le> k")
    case False
    then show ?thesis by (subst for_down1.simps) (simp add: final_def A_untouched_refl)
  next
    case True
    from "1.prems" have b: "A_untouched s (final (body k s))" by (simp add: keeps_A_def)
    show ?thesis
    proof (cases "body k s")
      case (Fault f t)
      with b True show ?thesis by (subst for_down1.simps) (simp add: final_def)
    next
      case (Ok x t)
      with b have "A_untouched s t" by (simp add: final_def)
      from A_untouched_trans [OF this "1.IH" [OF True Ok "1.prems"]] True Ok
      show ?thesis by (subst for_down1.simps) simp
    qed
  qed
qed

lemma keeps_A_for_up1:
  assumes "\<forall>k. keeps_A (body k)"
  shows "keeps_A (for_up1 k hi body)"
  unfolding keeps_A_def
proof
  fix s show "A_untouched s (final (for_up1 k hi body s))"
    by (rule for_up1_untouched [OF assms])
qed

lemma keeps_A_for_up4:
  assumes "\<forall>k. keeps_A (body k)"
  shows "keeps_A (for_up4 k hi body)"
  unfolding keeps_A_def
proof
  fix s show "A_untouched s (final (for_up4 k hi body s))"
    by (rule for_up4_untouched [OF assms])
qed

lemma keeps_A_for_up8:
  assumes "\<forall>k. keeps_A (body k)"
  shows "keeps_A (for_up8 k hi body)"
  unfolding keeps_A_def
proof
  fix s show "A_untouched s (final (for_up8 k hi body s))"
    by (rule for_up8_untouched [OF assms])
qed

lemma keeps_A_for_down1:
  assumes "\<forall>k. keeps_A (body k)"
  shows "keeps_A (for_down1 k lo body)"
  unfolding keeps_A_def
proof
  fix s show "A_untouched s (final (for_down1 k lo body s))"
    by (rule for_down1_untouched [OF assms])
qed

lemma keeps_A_trans_cell: "keeps_A (trans_cell M N i j)"
  unfolding trans_cell_def by (intro keeps_A_block) (simp add: keeps_A_load keeps_A_store)

lemma keeps_A_t32_row: "keeps_A (t32_row M N j k)"
  unfolding t32_row_def by (intro keeps_A_block) (simp add: keeps_A_load keeps_A_store)

lemma keeps_A_t3264_row: "keeps_A (t3264_row M N j k)"
  unfolding t3264_row_def by (intro keeps_A_block) (simp add: keeps_A_load keeps_A_store)

lemma keeps_A_t64_even_row: "keeps_A (t64_even_row M N i j k)"
  unfolding t64_even_row_def
  by (intro keeps_A_block) (simp add: keeps_A_load keeps_A_store keeps_A_block)

lemma keeps_A_t64_odd_row: "keeps_A (t64_odd_row M N i j k)"
  unfolding t64_odd_row_def
  by (simp add: keeps_A_load keeps_A_store keeps_A_block)

lemma keeps_A_t3264_stripe: "keeps_A (t3264_stripe M N i j)"
  unfolding t3264_stripe_def
  by (simp add: keeps_A_for_up1 keeps_A_for_down1 keeps_A_t3264_row)

lemma keeps_A_t64_stripe: "keeps_A (t64_stripe M N i j)"
  unfolding t64_stripe_def
  by (simp add: keeps_A_for_up1 keeps_A_for_down1 keeps_A_t64_even_row keeps_A_t64_odd_row)

declare is_transpose_j.simps [simp del] is_transpose_i.simps [simp del]

lemma differ_inside:
  assumes "0 \<le> i" "i < N" "0 \<le> j" "j < M"
  shows "differ M N i j s =
           Ok (cell (memA s) i j \<noteq> cell (memB s) j i)
              (s\<lparr>trace := trace s @ [Peek ArrA i j, Peek ArrB j i]\<rparr>)"
  using assms by (simp add: differ_def inside_def rows_of_def cols_of_def)

lemma is_transpose_j_result:
  "0 \<le> i \<Longrightarrow> i < N \<Longrightarrow> 0 \<le> j \<Longrightarrow>
   \<exists>t. is_transpose_j M N i j s =
         Ok (if (\<forall>j'. j \<le> j' \<and> j' < M \<longrightarrow> cell (memB s) j' i = cell (memA s) i j')
             then None else Some 0) t \<and>
       memA t = memA s \<and> memB t = memB s"
proof (induction M N i j s rule: is_transpose_j.induct)
  case (1 M N i j s)
  let ?P = "\<lambda>j'. cell (memB s) j' i = cell (memA s) i j'"
  show ?case
  proof (cases "j < M")
    case False
    then show ?thesis by (subst is_transpose_j.simps) simp
  next
    case True
    let ?t = "s\<lparr>trace := trace s @ [Peek ArrA i j, Peek ArrB j i]\<rparr>"
    note d = differ_inside [OF "1.prems"(1,2,3) True, of s]
    show ?thesis
    proof (cases "?P j")
      case False
      with True have "\<not> (\<forall>j'. j \<le> j' \<and> j' < M \<longrightarrow> ?P j')" by auto
      moreover from False have "is_transpose_j M N i j s = Ok (Some 0) ?t"
        using True d by (subst is_transpose_j.simps) auto
      ultimately show ?thesis by simp
    next
      case Pj: True
      then have nd: "\<not> (cell (memA s) i j \<noteq> cell (memB s) j i)" by simp
      from "1.prems"(3) have j1: "0 \<le> j + 1" by simp
      from "1.IH" [OF True d nd "1.prems"(1,2) j1]
      obtain u where u: "is_transpose_j M N i (j + 1) ?t =
          Ok (if (\<forall>j'. j + 1 \<le> j' \<and> j' < M \<longrightarrow> ?P j') then None else Some 0) u"
        and m: "memA u = memA s" "memB u = memB s" by auto
      have eq: "(\<forall>j'. j \<le> j' \<and> j' < M \<longrightarrow> ?P j') = (\<forall>j'. j + 1 \<le> j' \<and> j' < M \<longrightarrow> ?P j')"
      proof
        assume "\<forall>j'. j \<le> j' \<and> j' < M \<longrightarrow> ?P j'"
        then show "\<forall>j'. j + 1 \<le> j' \<and> j' < M \<longrightarrow> ?P j'" by simp
      next
        assume a: "\<forall>j'. j + 1 \<le> j' \<and> j' < M \<longrightarrow> ?P j'"
        show "\<forall>j'. j \<le> j' \<and> j' < M \<longrightarrow> ?P j'"
        proof (intro allI impI)
          fix j' assume "j \<le> j' \<and> j' < M"
          then have "j' = j \<or> (j + 1 \<le> j' \<and> j' < M)" by arith
          with Pj a show "?P j'" by (elim disjE) simp_all
        qed
      qed
      have "is_transpose_j M N i j s = is_transpose_j M N i (j + 1) ?t"
        using True d nd by (subst is_transpose_j.simps) simp
      with u m eq show ?thesis by simp
    qed
  qed
qed

lemma is_transpose_i_result:
  "0 \<le> i \<Longrightarrow>
   \<exists>t. is_transpose_i M N i s =
         Ok (if (\<forall>i' j'. i \<le> i' \<and> i' < N \<and> 0 \<le> j' \<and> j' < M \<longrightarrow>
                   cell (memB s) j' i' = cell (memA s) i' j')
             then 1 else 0) t \<and>
       memA t = memA s \<and> memB t = memB s"
proof (induction M N i s rule: is_transpose_i.induct)
  case (1 M N i s)
  let ?P = "\<lambda>i' j'. cell (memB s) j' i' = cell (memA s) i' j'"
  let ?row = "\<lambda>i'. \<forall>j'. 0 \<le> j' \<and> j' < M \<longrightarrow> ?P i' j'"
  show ?case
  proof (cases "i < N")
    case False
    then show ?thesis by (subst is_transpose_i.simps) simp
  next
    case True
    from is_transpose_j_result [OF "1.prems" True order_refl, of M s]
    obtain t where t: "is_transpose_j M N i 0 s = Ok (if ?row i then None else Some 0) t"
      and m: "memA t = memA s" "memB t = memB s" by auto
    show ?thesis
    proof (cases "?row i")
      case False
      with True "1.prems" have "\<not> (\<forall>i' j'. i \<le> i' \<and> i' < N \<and> 0 \<le> j' \<and> j' < M \<longrightarrow> ?P i' j')"
        by auto
      moreover from False t have "is_transpose_j M N i 0 s = Ok (Some 0) t" by simp
      with True have "is_transpose_i M N i s = Ok 0 t"
        by (subst is_transpose_i.simps) simp
      ultimately show ?thesis using m by simp
    next
      case ri: True
      with t have t': "is_transpose_j M N i 0 s = Ok None t" by simp
      from "1.prems" have i1: "0 \<le> i + 1" by simp
      from "1.IH" [OF True t' refl i1] m
      obtain u where u: "is_transpose_i M N (i + 1) t =
          Ok (if (\<forall>i' j'. i + 1 \<le> i' \<and> i' < N \<and> 0 \<le> j' \<and> j' < M \<longrightarrow> ?P i' j')
              then 1 else 0) u"
        and mu: "memA u = memA s" "memB u = memB s" by auto
      have eq: "(\<forall>i' j'. i \<le> i' \<and> i' < N \<and> 0 \<le> j' \<and> j' < M \<longrightarrow> ?P i' j') =
                (\<forall>i' j'. i + 1 \<le> i' \<and> i' < N \<and> 0 \<le> j' \<and> j' < M \<longrightarrow> ?P i' j')"
      proof
        assume "\<forall>i' j'. i \<le> i' \<and> i' < N \<and> 0 \<le> j' \<and> j' < M \<longrightarrow> ?P i' j'"
        then show "\<forall>i' j'. i + 1 \<le> i' \<and> i' < N \<and> 0 \<le> j' \<and> j' < M \<longrightarrow> ?P i' j'" by simp
      next
        assume a: "\<forall>i' j'. i + 1 \<le> i' \<and> i' < N \<and> 0 \<le> j' \<and> j' < M \<longrightarrow> ?P i' j'"
        show "\<forall>i' j'. i \<le> i' \<and> i' < N \<and> 0 \<le> j' \<and> j' < M \<longrightarrow> ?P i' j'"
        proof (intro allI impI)
          fix i' j' assume h: "i \<le> i' \<and> i' < N \<and> 0 \<le> j' \<and> j' < M"
          then have "i' = i \<or> i + 1 \<le> i'" by arith
          then show "?P i' j'"
          proof
            assume "i' = i"
            with ri h show ?thesis by simp
          next
            assume "i + 1 \<le> i'"
            with a h show ?thesis by simp
          qed
        qed
      qed
      have "is_transpose_i M N i s = is_transpose_i M N (i + 1) t"
        using True t' by (subst is_transpose_i.simps) simp
      with u mu eq show ?thesis by simp
    qed
  qed
qed

text \<open>
  Claim C8. \<open>is_transpose(M, N, A, B)\<close> returns 1 if \<open>A[i][j] = B[j][i]\<close> for every \<open>i\<close> in
  \<open>[0, N)\<close> and \<open>j\<close> in \<open>[0, M)\<close>, returns 0 otherwise, and leaves \<open>A\<close> and \<open>B\<close> as they were.
\<close>

theorem is_transpose_result:
  "\<exists>t. is_transpose M N s = Ok (if transposed M N (memA s) (memB s) then 1 else 0) t \<and>
       memA t = memA s \<and> memB t = memB s"
  using is_transpose_i_result [of 0 M N s]
  by (simp add: is_transpose_def transposed_def)

theorem is_transpose_result_witness:
  "(\<exists>t. is_transpose 2 2 (start [[1, 2], [3, 4]] [[1, 3], [2, 4]]) = Ok 1 t \<and>
        memA t = [[1, 2], [3, 4]] \<and> memB t = [[1, 3], [2, 4]]) \<and>
   (\<exists>t. is_transpose 2 2 scenario_S1 = Ok 0 t \<and>
        memA t = [[1, 2], [3, 4]] \<and> memB t = [[0, 0], [0, 0]])"
proof -
  have two: "i = 0 \<or> i = 1" if "0 \<le> i \<and> i < 2" for i :: int using that by arith
  have yes: "transposed 2 2 [[1, 2], [3, 4]] [[1, 3], [2, 4]]"
    unfolding transposed_def
  proof (intro allI impI)
    fix i j :: int assume "0 \<le> i \<and> i < 2 \<and> 0 \<le> j \<and> j < 2"
    then have "i = 0 \<or> i = 1" "j = 0 \<or> j = 1" by (simp_all add: two)
    then show "cell [[1, 3], [2, 4]] j i = cell [[1, 2], [3, 4]] i j"
      by (elim disjE) (simp_all add: cell_def)
  qed
  have no: "\<not> transposed 2 2 [[1, 2], [3, 4]] [[0, 0], [0, 0]]"
  proof
    assume "transposed 2 2 [[1, 2], [3, 4]] [[0, 0], [0, 0]]"
    from transposedD [OF this, of 0 0] show False by (simp add: cell_def)
  qed
  from is_transpose_result [of 2 2 "start [[1, 2], [3, 4]] [[1, 3], [2, 4]]"]
    is_transpose_result [of 2 2 scenario_S1] yes no
  show ?thesis by (simp add: start_def scenario_S1_def)
qed



text \<open>
  Claim C5. On each of the shapes \<open>(32, 32)\<close>, \<open>(32, 64)\<close> and \<open>(64, 64)\<close>, run the routine
  that \<open>transpose_submit\<close> selects and the baseline \<open>trans\<close> on the same input \<open>A\<close>, each
  with an output buffer of its own whose initial content is arbitrary: both return, and
  they leave the same matrix \<open>B\<close>, the transpose of \<open>A\<close>.
\<close>

theorem tuned_equals_baseline:
  assumes "(M = 32 \<and> N = 32) \<or> (M = 32 \<and> N = 64) \<or> (M = 64 \<and> N = 64)"
    and "shape N M (memA s)" "shape M N (memB s)"
    and "memA s' = memA s" "shape M N (memB s')"
  shows "\<exists>t u. transpose_submit M N s = Ok () t \<and> trans M N s' = Ok () u \<and>
           memB t = memB u \<and> transposed M N (memA s) (memB t)"
proof -
  from assms(1) have nn: "0 \<le> M" "0 \<le> N" by auto
  from supported_good [OF assms(1,3)] obtain t where t: "transpose_submit M N s = Ok () t"
    and g: "good M N (memA s) (trace s) {(r, c). 0 \<le> r \<and> r < M \<and> 0 \<le> c \<and> c < N} t"
    by iprover
  from trans_good [OF nn assms(5)] obtain u where u: "trans M N s' = Ok () u"
    and h: "good M N (memA s') (trace s') {(r, c). 0 \<le> r \<and> r < M \<and> 0 \<le> c \<and> c < N} u"
    by iprover
  from good_full(3) [OF h] assms(4) have tu: "transposed M N (memA s) (memB u)" by simp
  from matrix_eqI [OF good_full(2) [OF g] good_full(2) [OF h] good_full(3) [OF g] tu]
  have "memB t = memB u" .
  with t u good_full(3) [OF g] show ?thesis by iprover
qed

theorem tuned_equals_baseline_witness:
  "shape 64 32 (ramp 64 32) \<and> shape 32 64 (zeros 32 64) \<and> shape 32 64 (ramp 32 64) \<and>
   (\<exists>t u. transpose_submit 32 64 (start (ramp 64 32) (zeros 32 64)) = Ok () t \<and>
          trans 32 64 (start (ramp 64 32) (ramp 32 64)) = Ok () u \<and> memB t = memB u \<and>
          cell (memB u) 7 40 = 1287)"
proof -
  let ?s = "start (ramp 64 32) (zeros 32 64)"
  let ?s' = "start (ramp 64 32) (ramp 32 64)"
  have a: "shape 64 32 (memA ?s)" using shape_ramp [of 64 32] by (simp add: start_def)
  have b: "shape 32 64 (memB ?s)" using shape_zeros [of 32 64] by (simp add: start_def)
  have b': "shape 32 64 (memB ?s')" using shape_ramp [of 32 64] by (simp add: start_def)
  have e: "memA ?s' = memA ?s" by (simp add: start_def)
  from tuned_equals_baseline [of 32 64 ?s ?s', OF _ a b e b']
  obtain t u where tu: "transpose_submit 32 64 ?s = Ok () t" "trans 32 64 ?s' = Ok () u"
    "memB t = memB u" "transposed 32 64 (memA ?s) (memB t)" by auto
  from transposedD [OF tu(4), of 40 7] cell_ramp [of 40 64 7 32] tu(3)
  have c: "cell (memB u) 7 40 = 1287" by (simp add: start_def)
  from tu(1,2,3) c have "\<exists>t u. transpose_submit 32 64 ?s = Ok () t \<and>
      trans 32 64 ?s' = Ok () u \<and> memB t = memB u \<and> cell (memB u) 7 40 = 1287" by iprover
  with a b b' show ?thesis by (simp add: start_def)
qed




lemma for_up4_split:
  "k \<le> mid \<Longrightarrow> mid \<le> hi \<Longrightarrow> (mid - k) mod 4 = 0 \<Longrightarrow>
   for_up4 k hi body s =
     (case for_up4 k mid body s of Fault f t \<Rightarrow> Fault f t | Ok x t \<Rightarrow> for_up4 mid hi body t)"
proof (induction k mid body s rule: for_up4.induct)
  case (1 k mid body s)
  note le = "1.prems"(1) and mh = "1.prems"(2) and md = "1.prems"(3)
  show ?case
  proof (cases "k < mid")
    case False
    with le have km: "k = mid" by simp
    have "for_up4 mid mid body s = Ok () s" by (subst for_up4.simps) simp
    with km show ?thesis by simp
  next
    case True
    with mh have kh: "k < hi" by simp
    have L: "for_up4 k hi body s =
        (case body k s of Fault f t \<Rightarrow> Fault f t | Ok x t \<Rightarrow> for_up4 (k + 4) hi body t)"
      using kh by (subst for_up4.simps) simp
    have R: "for_up4 k mid body s =
        (case body k s of Fault f t \<Rightarrow> Fault f t | Ok x t \<Rightarrow> for_up4 (k + 4) mid body t)"
      using True by (subst for_up4.simps) simp
    show ?thesis
    proof (cases "body k s")
      case (Fault f t)
      with L R show ?thesis by simp
    next
      case (Ok x t)
      from md True have a: "k + 4 \<le> mid" by presburger
      from md have b: "(mid - (k + 4)) mod 4 = 0" by presburger
      from "1.IH" [OF True Ok a mh b] L R Ok show ?thesis by simp
    qed
  qed
qed

lemma for_up8_split:
  "k \<le> mid \<Longrightarrow> mid \<le> hi \<Longrightarrow> (mid - k) mod 8 = 0 \<Longrightarrow>
   for_up8 k hi body s =
     (case for_up8 k mid body s of Fault f t \<Rightarrow> Fault f t | Ok x t \<Rightarrow> for_up8 mid hi body t)"
proof (induction k mid body s rule: for_up8.induct)
  case (1 k mid body s)
  note le = "1.prems"(1) and mh = "1.prems"(2) and md = "1.prems"(3)
  show ?case
  proof (cases "k < mid")
    case False
    with le have km: "k = mid" by simp
    have "for_up8 mid mid body s = Ok () s" by (subst for_up8.simps) simp
    with km show ?thesis by simp
  next
    case True
    with mh have kh: "k < hi" by simp
    have L: "for_up8 k hi body s =
        (case body k s of Fault f t \<Rightarrow> Fault f t | Ok x t \<Rightarrow> for_up8 (k + 8) hi body t)"
      using kh by (subst for_up8.simps) simp
    have R: "for_up8 k mid body s =
        (case body k s of Fault f t \<Rightarrow> Fault f t | Ok x t \<Rightarrow> for_up8 (k + 8) mid body t)"
      using True by (subst for_up8.simps) simp
    show ?thesis
    proof (cases "body k s")
      case (Fault f t)
      with L R show ?thesis by simp
    next
      case (Ok x t)
      from md True have a: "k + 8 \<le> mid" by presburger
      from md have b: "(mid - (k + 8)) mod 8 = 0" by presburger
      from "1.IH" [OF True Ok a mh b] L R Ok show ?thesis by simp
    qed
  qed
qed

lemma t64_band_prefix:
  assumes "0 \<le> J" "J \<le> M" "J mod 8 = 0" "M mod 8 = 0" "0 \<le> i" "i + 8 \<le> N"
  shows "hoare (good M N A0 t0 D) (for_up4 0 J (t64_stripe M N i))
           (good M N A0 t0 (D \<union> {(r, c). 0 \<le> r \<and> r < J \<and> i \<le> c \<and> c < i + 8}))"
proof (rule hoareI)
  fix s assume g: "good M N A0 t0 D s"
  let ?I = "\<lambda>j s. good M N A0 t0 (D \<union> {(r, c). 0 \<le> r \<and> r < j \<and> i \<le> c \<and> c < i + 8}) s \<and>
                 ((j div 4) mod 2 \<noteq> 0 \<longrightarrow> carry A0 (i + 1) j s)"
  have step: "\<forall>j. 0 \<le> j \<and> j < J \<and> (J - j) mod 4 = 0 \<longrightarrow>
               hoare (?I j) (t64_stripe M N i j) (?I (j + 4))"
  proof (intro allI impI)
    fix j assume j: "0 \<le> j \<and> j < J \<and> (J - j) mod 4 = 0"
    with assms(2,3) have "0 \<le> j" "j < M" "j mod 4 = 0" by presburger+
    from t64_stripe_good [OF this(1,2) assms(4) this(3) assms(5,6)]
    show "hoare (?I j) (t64_stripe M N i j) (?I (j + 4))"
      by (rule hoare_conseq) (auto elim!: good_mono)
  qed
  have "good M N A0 t0 (D \<union> {(r, c). 0 \<le> r \<and> r < 0 \<and> i \<le> c \<and> c < i + 8}) s"
    by (rule good_mono [OF g]) auto
  then have i0: "?I 0 s" by simp
  from assms(3) have m4: "(J - 0) mod 4 = 0" by presburger
  from for_up4_total [where I = ?I, OF step i0 order_refl assms(1) m4]
  show "\<exists>t. for_up4 0 J (t64_stripe M N i) s = Ok () t \<and>
       good M N A0 t0 (D \<union> {(r, c). 0 \<le> r \<and> r < J \<and> i \<le> c \<and> c < i + 8}) t" by iprover
qed

lemma t64_bands_prefix:
  assumes "0 \<le> M" "M mod 8 = 0" "0 \<le> I" "I \<le> N" "I mod 8 = 0" "shape M N (memB s)"
  shows "\<exists>t. for_up8 0 I (\<lambda>i. for_up4 0 M (t64_stripe M N i)) (enter s) = Ok () t \<and>
           good M N (memA s) (trace s) {(r, c). 0 \<le> r \<and> r < M \<and> 0 \<le> c \<and> c < I} t"
proof -
  let ?I = "\<lambda>i. good M N (memA s) (trace s) {(r, c). 0 \<le> r \<and> r < M \<and> 0 \<le> c \<and> c < i}"
  have step: "\<forall>i. 0 \<le> i \<and> i < I \<and> (I - i) mod 8 = 0 \<longrightarrow>
               hoare (?I i) (for_up4 0 M (t64_stripe M N i)) (?I (i + 8))"
  proof (intro allI impI)
    fix i assume i: "0 \<le> i \<and> i < I \<and> (I - i) mod 8 = 0"
    with assms(4) have "0 \<le> i" "i + 8 \<le> N" by presburger+
    from t64_band_good [OF assms(1,2) this]
    show "hoare (?I i) (for_up4 0 M (t64_stripe M N i)) (?I (i + 8))"
      by (rule hoare_good_post) auto
  qed
  have i0: "?I 0 (enter s)" by (rule good_mono [OF good_start [OF assms(6)]]) auto
  from assms(5) have m8: "(I - 0) mod 8 = 0" by simp
  from for_up8_total [where I = ?I, OF step i0 order_refl assms(3) m8] show ?thesis .
qed

lemma untouched_trace: "A_untouched s t \<Longrightarrow> \<exists>ev. trace t = trace s @ ev"
  unfolding A_untouched_def by (elim conjE exE, intro exI)

lemma keeps_A_Ok: "keeps_A c \<Longrightarrow> c s = Ok x t \<Longrightarrow> \<exists>ev. trace t = trace s @ ev"
  using keeps_A_D [of c s] untouched_trace [of s t] by (simp add: final_def)

text \<open>
  Claim C2. In a run of \<open>transpose64x64\<close> on a shape of positive multiples of eight, take
  any band \<open>i\<close> and any even stripe \<open>j\<close> of it. The run reaches the start of that stripe
  in a state \<open>s0\<close> (after the bands before \<open>i\<close> and the stripes before \<open>j\<close>), runs the even
  stripe from \<open>s0\<close> to \<open>s1\<close> and the odd stripe \<open>j + 4\<close> from \<open>s1\<close> to \<open>s2\<close>, and goes on from
  \<open>s2\<close> with the stripes from \<open>j + 8\<close>, which end band \<open>i\<close> in \<open>sB\<close>, and with the bands
  after \<open>i\<close> to its final state; its
  log is the log up to \<open>s0\<close>, then that of the even stripe, then that of the odd stripe,
  then the rest. The even stripe assigns \<open>c4..c7\<close> exactly once each, from
  \<open>A[i+1][j+4..j+7]\<close>, and stores none of them; at the stripe boundary \<open>s1\<close> they hold those
  four elements of \<open>A\<close> as it was on entry. The odd stripe assigns none of them, loads
  nothing from row \<open>i + 1\<close> of \<open>A\<close>, and stores each of them exactly once, into
  \<open>B[j+4..j+7][i+1]\<close>; in \<open>s2\<close> these cells of \<open>B\<close> equal \<open>A[i+1][j+4..j+7]\<close>.
\<close>

theorem carry_in_transpose64x64:
  assumes "0 < M" "M mod 8 = 0" "0 < N" "N mod 8 = 0"
    and "shape N M (memA s)" "shape M N (memB s)"
    and "0 \<le> i" "i + 8 \<le> N" "i mod 8 = 0"
    and "0 \<le> j" "j + 8 \<le> M" "j mod 8 = 0"
  shows "\<exists>t sA s0 s1 s2 sB pre ev1 ev2 post.
           transpose64x64 M N s = Ok () t \<and>
           trace t = trace s @ pre @ ev1 @ ev2 @ post \<and>
           for_up8 0 i (\<lambda>i. for_up4 0 M (t64_stripe M N i)) (enter s) = Ok () sA \<and>
           for_up4 0 M (t64_stripe M N i) sA = Ok () sB \<and>
           for_up4 0 j (t64_stripe M N i) sA = Ok () s0 \<and>
           trace s0 = trace s @ pre \<and>
           t64_stripe M N i j s0 = Ok () s1 \<and> trace s1 = trace s0 @ ev1 \<and>
           t64_stripe M N i (j + 4) s1 = Ok () s2 \<and> trace s2 = trace s1 @ ev2 \<and>
           for_up4 (j + 8) M (t64_stripe M N i) s2 = Ok () sB \<and>
           for_up8 (i + 8) N (\<lambda>i. for_up4 0 M (t64_stripe M N i)) sB = Ok () t \<and>
           filter assigns_carry ev1 =
             [Load C4 ArrA (i + 1) (j + 4), Load C5 ArrA (i + 1) (j + 5),
              Load C6 ArrA (i + 1) (j + 6), Load C7 ArrA (i + 1) (j + 7)] \<and>
           filter uses_carry ev1 = [] \<and>
           carry (memA s) (i + 1) (j + 4) s1 \<and>
           filter assigns_carry ev2 = [] \<and>
           filter (reads_row (i + 1)) ev2 = [] \<and>
           filter uses_carry ev2 =
             [Store ArrB (j + 4) (i + 1) C4, Store ArrB (j + 5) (i + 1) C5,
              Store ArrB (j + 6) (i + 1) C6, Store ArrB (j + 7) (i + 1) C7] \<and>
           cell (memB s2) (j + 4) (i + 1) = cell (memA s) (i + 1) (j + 4) \<and>
           cell (memB s2) (j + 5) (i + 1) = cell (memA s) (i + 1) (j + 5) \<and>
           cell (memB s2) (j + 6) (i + 1) = cell (memA s) (i + 1) (j + 6) \<and>
           cell (memB s2) (j + 7) (i + 1) = cell (memA s) (i + 1) (j + 7)"
proof -
  let ?S = "t64_stripe M N i"
  let ?B = "\<lambda>i. for_up4 0 M (t64_stripe M N i)"
  from assms have nn: "0 \<le> M" "0 \<le> N" and iN: "i \<le> N" "i < N"
    and jM: "j \<le> M" "j < M" "j + 4 < M" by simp_all
  from transpose64x64_good [OF nn(1) assms(2) nn(2) assms(4,6)]
  obtain t where t: "transpose64x64 M N s = Ok () t" by iprover
  from t64_bands_prefix [OF nn(1) assms(2,7) iN(1) assms(9,6)]
  obtain sA where sA: "for_up8 0 i ?B (enter s) = Ok () sA"
    and gA: "good M N (memA s) (trace s) {(r, c). 0 \<le> r \<and> r < M \<and> 0 \<le> c \<and> c < i} sA"
    by iprover
  from hoareD [OF t64_band_prefix [OF assms(10) jM(1) assms(12,2,7,8)] gA]
  obtain s0 where s0: "for_up4 0 j ?S sA = Ok () s0"
    and g0: "good M N (memA s) (trace s)
               ({(r, c). 0 \<le> r \<and> r < M \<and> 0 \<le> c \<and> c < i} \<union>
                {(r, c). 0 \<le> r \<and> r < j \<and> i \<le> c \<and> c < i + 8}) s0"
    by iprover
  from g0 have m0: "memA s0 = memA s" and sh0: "shape M N (memB s0)"
    and lg0: "logged M N (trace s) (trace s0)" by (simp_all add: good_def)
  from lg0 obtain pre where pre: "trace s0 = trace s @ pre"
    unfolding logged_def by (elim exE conjE)
  from assms(12) have "(j div 4) mod 2 = 0" by presburger
  then have par: "(j sdiv 4) smod 2 = 0" by (simp add: stripe_parity [OF assms(10)])
  from stripe_pair_carry [OF assms(7,8,10,11) par sh0]
  obtain s1 s2 ev1 ev2 where
    s1: "t64_stripe M N i j s0 = Ok () s1" and tr1: "trace s1 = trace s0 @ ev1" and
    s2: "t64_stripe M N i (j + 4) s1 = Ok () s2" and tr2: "trace s2 = trace s1 @ ev2" and
    a1: "filter assigns_carry ev1 =
             [Load C4 ArrA (i + 1) (j + 4), Load C5 ArrA (i + 1) (j + 5),
              Load C6 ArrA (i + 1) (j + 6), Load C7 ArrA (i + 1) (j + 7)]" and
    u1: "filter uses_carry ev1 = []" and
    cr: "carry (memA s0) (i + 1) (j + 4) s1" and
    a2: "filter assigns_carry ev2 = []" and
    r2: "filter (reads_row (i + 1)) ev2 = []" and
    u2: "filter uses_carry ev2 =
             [Store ArrB (j + 4) (i + 1) C4, Store ArrB (j + 5) (i + 1) C5,
              Store ArrB (j + 6) (i + 1) C6, Store ArrB (j + 7) (i + 1) C7]" and
    c4: "cell (memB s2) (j + 4) (i + 1) = cell (memA s0) (i + 1) (j + 4)" and
    c5: "cell (memB s2) (j + 5) (i + 1) = cell (memA s0) (i + 1) (j + 5)" and
    c6: "cell (memB s2) (j + 6) (i + 1) = cell (memA s0) (i + 1) (j + 6)" and
    c7: "cell (memB s2) (j + 7) (i + 1) = cell (memA s0) (i + 1) (j + 7)"
    by (elim exE conjE)
  from assms(9) have i8: "(i - 0) mod 8 = 0" by simp
  from assms(12) have j4: "(j - 0) mod 4 = 0" by presburger
  have h1: "for_up8 0 N ?B (enter s) = for_up8 i N ?B sA"
    using for_up8_split [OF assms(7) iN(1) i8, of ?B "enter s"] sA by simp
  have h2: "for_up8 i N ?B sA =
      (case ?B i sA of Fault f x \<Rightarrow> Fault f x | Ok u y \<Rightarrow> for_up8 (i + 8) N ?B y)"
    using iN(2) by (subst for_up8.simps) simp
  have h3: "?B i sA = for_up4 j M ?S s0"
    using for_up4_split [OF assms(10) jM(1) j4, of ?S sA] s0 by simp
  have h4: "for_up4 j M ?S s0 = for_up4 (j + 4) M ?S s1"
    using jM(2) s1 by (subst for_up4.simps) simp
  have h5: "for_up4 (j + 4) M ?S s1 = for_up4 (j + 8) M ?S s2"
    using jM(3) s2 by (subst for_up4.simps) (simp add: add.commute)
  from t h1 h2 h3 h4 h5 have whole:
    "(case for_up4 (j + 8) M ?S s2 of Fault f x \<Rightarrow> Fault f x
      | Ok u y \<Rightarrow> for_up8 (i + 8) N ?B y) = Ok () t"
    by (simp add: transpose64x64_def)
  then obtain sB where sB: "for_up4 (j + 8) M ?S s2 = Ok () sB"
    and rest: "for_up8 (i + 8) N ?B sB = Ok () t"
    by (cases "for_up4 (j + 8) M ?S s2") simp_all
  from h3 h4 h5 sB have band: "for_up4 0 M ?S sA = Ok () sB" by simp
  have k1: "keeps_A (for_up4 (j + 8) M ?S)"
    by (intro keeps_A_for_up4 allI keeps_A_t64_stripe)
  have k2: "keeps_A (for_up8 (i + 8) N ?B)"
    by (intro keeps_A_for_up8 keeps_A_for_up4 allI keeps_A_t64_stripe)
  from keeps_A_Ok [OF k1 sB] obtain p1 where p1: "trace sB = trace s2 @ p1" by (elim exE)
  from keeps_A_Ok [OF k2 rest] obtain p2 where p2: "trace t = trace sB @ p2" by (elim exE)
  from pre tr1 tr2 p1 p2 have tr: "trace t = trace s @ pre @ ev1 @ ev2 @ (p1 @ p2)" by simp
  note cr' = cr [unfolded m0] and c4' = c4 [unfolded m0] and c5' = c5 [unfolded m0]
    and c6' = c6 [unfolded m0] and c7' = c7 [unfolded m0]
  show ?thesis
    apply (rule exI [of _ t], rule exI [of _ sA], rule exI [of _ s0], rule exI [of _ s1])
    apply (rule exI [of _ s2], rule exI [of _ sB], rule exI [of _ pre], rule exI [of _ ev1])
    apply (rule exI [of _ ev2], rule exI [of _ "p1 @ p2"])
    apply (intro conjI)
    apply (fact t tr sA band s0 pre s1 tr1 s2 tr2 sB rest a1 u1 cr' a2 r2 u2 c4' c5' c6' c7')+
    done
qed

theorem carry_in_transpose64x64_witness:
  "shape 64 64 (ramp 64 64) \<and> shape 64 64 (zeros 64 64) \<and>
   (\<exists>t s0 s1 s2 pre ev1 ev2 post.
      transpose64x64 64 64 (start (ramp 64 64) (zeros 64 64)) = Ok () t \<and>
      trace t = pre @ ev1 @ ev2 @ post \<and> trace s0 = pre \<and>
      t64_stripe 64 64 8 16 s0 = Ok () s1 \<and> trace s1 = trace s0 @ ev1 \<and>
      t64_stripe 64 64 8 20 s1 = Ok () s2 \<and> trace s2 = trace s1 @ ev2 \<and>
      filter assigns_carry ev1 =
        [Load C4 ArrA 9 20, Load C5 ArrA 9 21, Load C6 ArrA 9 22, Load C7 ArrA 9 23] \<and>
      filter assigns_carry ev2 = [] \<and>
      filter (reads_row 9) ev2 = [] \<and>
      filter uses_carry ev1 = [] \<and>
      filter uses_carry ev2 =
        [Store ArrB 20 9 C4, Store ArrB 21 9 C5, Store ArrB 22 9 C6, Store ArrB 23 9 C7] \<and>
      vars s1 C4 = Some 596 \<and> cell (memB s2) 20 9 = 596)"
proof -
  let ?s = "start (ramp 64 64) (zeros 64 64)"
  have a: "shape 64 64 (memA ?s)" using shape_ramp [of 64 64] by (simp add: start_def)
  have b: "shape 64 64 (memB ?s)" using shape_zeros [of 64 64] by (simp add: start_def)
  have v: "cell (memA ?s) 9 20 = 596" using cell_ramp [of 9 64 20 64] by (simp add: start_def)
  have tr: "trace ?s = []" by (simp add: start_def)
  from carry_in_transpose64x64 [of 64 64 ?s 8 16, OF _ _ _ _ a b]
  obtain t sA s0 s1 s2 sB pre ev1 ev2 post where
    f: "transpose64x64 64 64 ?s = Ok () t"
       "trace t = trace ?s @ pre @ ev1 @ ev2 @ post"
       "trace s0 = trace ?s @ pre"
       "t64_stripe 64 64 8 16 s0 = Ok () s1" "trace s1 = trace s0 @ ev1"
       "t64_stripe 64 64 8 20 s1 = Ok () s2" "trace s2 = trace s1 @ ev2"
       "filter assigns_carry ev1 =
          [Load C4 ArrA 9 20, Load C5 ArrA 9 21, Load C6 ArrA 9 22, Load C7 ArrA 9 23]"
       "filter assigns_carry ev2 = []"
       "filter (reads_row 9) ev2 = []"
       "filter uses_carry ev1 = []"
       "filter uses_carry ev2 =
          [Store ArrB 20 9 C4, Store ArrB 21 9 C5, Store ArrB 22 9 C6, Store ArrB 23 9 C7]"
       and cr: "carry (memA ?s) 9 20 s1"
       and c: "cell (memB s2) 20 9 = cell (memA ?s) 9 20"
    by (simp, elim exE conjE) simp_all
  from cr v have c4: "vars s1 C4 = Some 596" by (simp add: carry_def)
  from c v have cb: "cell (memB s2) 20 9 = 596" by simp
  from f(2,3) tr have f2: "trace t = pre @ ev1 @ ev2 @ post" "trace s0 = pre" by simp_all
  have "\<exists>t s0 s1 s2 pre ev1 ev2 post.
      transpose64x64 64 64 ?s = Ok () t \<and>
      trace t = pre @ ev1 @ ev2 @ post \<and> trace s0 = pre \<and>
      t64_stripe 64 64 8 16 s0 = Ok () s1 \<and> trace s1 = trace s0 @ ev1 \<and>
      t64_stripe 64 64 8 20 s1 = Ok () s2 \<and> trace s2 = trace s1 @ ev2 \<and>
      filter assigns_carry ev1 =
        [Load C4 ArrA 9 20, Load C5 ArrA 9 21, Load C6 ArrA 9 22, Load C7 ArrA 9 23] \<and>
      filter assigns_carry ev2 = [] \<and>
      filter (reads_row 9) ev2 = [] \<and>
      filter uses_carry ev1 = [] \<and>
      filter uses_carry ev2 =
        [Store ArrB 20 9 C4, Store ArrB 21 9 C5, Store ArrB 22 9 C6, Store ArrB 23 9 C7] \<and>
      vars s1 C4 = Some 596 \<and> cell (memB s2) 20 9 = 596"
    apply (rule exI [of _ t], rule exI [of _ s0], rule exI [of _ s1], rule exI [of _ s2])
    apply (rule exI [of _ pre], rule exI [of _ ev1], rule exI [of _ ev2], rule exI [of _ post])
    apply (intro conjI)
    apply (fact f(1) f2 f(4-12) c4 cb)+
    done
  with a b show ?thesis by (simp add: start_def)
qed
















end
